theory Spec2Isabelle
  imports Complex_Main "HOL-Library.Word"
begin

section \<open>JavaScript strings\<close>

text \<open>
  A JavaScript string is a sequence of UTF-16 code units; \<open>length\<close>, \<open>substring\<close>,
  \<open>charAt\<close>, indexing and the selection offsets of a textarea all count code units.
  The function \<open>js\<close> writes an ASCII literal as such a sequence.
\<close>

type_synonym jschar = "16 word"
type_synonym jsstring = "jschar list"

definition js :: "string \<Rightarrow> jsstring" where
  "js s = map of_char s"

text \<open>
  The characters matched by \<open>\s\<close> in a regular expression and stripped by \<open>trim\<close>,
  \<open>trimStart\<close> and \<open>trimEnd\<close>: ECMAScript's WhiteSpace and LineTerminator productions
  (TAB, LF, VT, FF, CR, SP, NBSP, the other space separators, LS, PS and the BOM).
\<close>

definition isWhitespace :: "jschar \<Rightarrow> bool" where
  "isWhitespace c \<longleftrightarrow>
     c \<in> {0x09, 0x0A, 0x0B, 0x0C, 0x0D, 0x20, 0xA0, 0x1680,
          0x2028, 0x2029, 0x202F, 0x205F, 0x3000, 0xFEFF}
     \<or> (0x2000 \<le> c \<and> c \<le> 0x200A)"

definition trimStart :: "jsstring \<Rightarrow> jsstring" where
  "trimStart s = dropWhile isWhitespace s"

definition trimEnd :: "jsstring \<Rightarrow> jsstring" where
  "trimEnd s = rev (dropWhile isWhitespace (rev s))"

definition trim :: "jsstring \<Rightarrow> jsstring" where
  "trim s = trimEnd (trimStart s)"

text \<open>
  \<open>s.substring(a, b)\<close>: both arguments are clamped to \<open>0 .. s.length\<close> and swapped
  when the first is the larger; \<open>s.substring(a)\<close> runs to the end of the string.
\<close>

definition substring :: "jsstring \<Rightarrow> int \<Rightarrow> int \<Rightarrow> jsstring" where
  "substring s a b =
     (let n = int (length s);
          a' = max 0 (min a n);
          b' = max 0 (min b n);
          lo = min a' b';
          hi = max a' b'
      in take (nat (hi - lo)) (drop (nat lo) s))"

definition substringFrom :: "jsstring \<Rightarrow> int \<Rightarrow> jsstring" where
  "substringFrom s a = substring s a (int (length s))"

text \<open>\<open>s.lastIndexOf(c)\<close> for a one-unit search string: the last index of \<open>c\<close>, or \<open>-1\<close>.\<close>

fun lastIndexOf :: "jsstring \<Rightarrow> jschar \<Rightarrow> int" where
  "lastIndexOf [] c = - 1"
| "lastIndexOf (x # xs) c =
     (let r = lastIndexOf xs c
      in if r \<noteq> - 1 then r + 1 else if x = c then 0 else - 1)"

text \<open>The code unit of the string \<open>' '\<close>.\<close>

definition SP :: jschar where
  "SP = 0x20"

section \<open>The document: the textarea's value and selection\<close>

record Document =
  doc_text :: jsstring
  selectionStart :: nat
  selectionEnd :: nat

definition valid :: "Document \<Rightarrow> bool" where
  "valid d \<longleftrightarrow> selectionStart d \<le> selectionEnd d \<and> selectionEnd d \<le> length (doc_text d)"

text \<open>
  The state of the textarea once the new text is rendered and the callback passed to
  \<open>requestAnimationFrame\<close> has assigned the selection. The textarea clamps an assigned
  offset to the length of its value and keeps the start at or before the end. The
  handlers never assign a negative offset; the model reads one as 0.
\<close>

definition setSelection :: "jsstring \<Rightarrow> int \<Rightarrow> int \<Rightarrow> Document" where
  "setSelection newText a b =
     (let n = int (length newText);
          e = max 0 (min b n);
          s = min (max 0 (min a n)) e
      in \<lparr>doc_text = newText, selectionStart = nat s, selectionEnd = nat e\<rparr>)"

section \<open>Text manipulation (App.tsx, lines 128 to 250)\<close>

definition insertTextAtCursor :: "Document \<Rightarrow> jsstring \<Rightarrow> Document" where
  "insertTextAtCursor d textToInsert =
     (let start = int (selectionStart d);
          endp = int (selectionEnd d);
          currentText = doc_text d;
          newText = substring currentText 0 start @ textToInsert @ substringFrom currentText endp;
          newCursorPos = start + int (length textToInsert)
      in setSelection newText newCursorPos newCursorPos)"

datatype DeleteMode = M_CHAR | M_WORD

definition deleteAtCursor :: "Document \<Rightarrow> DeleteMode \<Rightarrow> Document" where
  "deleteAtCursor d mode =
     (let start = int (selectionStart d);
          endp = int (selectionEnd d);
          currentText = doc_text d
      in if start \<noteq> endp then
           setSelection (substring currentText 0 start @ substringFrom currentText endp) start start
         else if start = 0 then d
         else
           (let deleteCount =
                  (if mode = M_WORD then
                     (let textBefore = substring currentText 0 start;
                          trimmedBefore = trimEnd textBefore;
                          lastSpaceIndex = lastIndexOf trimmedBefore SP;
                          targetIndex = (if lastSpaceIndex = - 1 then 0 else lastSpaceIndex + 1);
                          deleteCount = start - targetIndex
                      in if deleteCount = 0 \<and> start > 0 then 1 else deleteCount)
                   else 1);
                newText = substring currentText 0 (start - deleteCount) @ substringFrom currentText endp
            in setSelection newText (start - deleteCount) (start - deleteCount)))"

text \<open>
  The case mappings and the general category P (punctuation) come from the host's Unicode
  tables; the model takes them as a parameter. \<open>isPunctuation\<close> is \<open>\p{P}\<close> on one code
  unit.
\<close>

record Unicode =
  toUpperCase :: "jsstring \<Rightarrow> jsstring"
  toLowerCase :: "jsstring \<Rightarrow> jsstring"
  isPunctuation :: "jschar \<Rightarrow> bool"

text \<open>
  \<open>/[\s\p{P}]/u.test(textStr[i])\<close>. Out of range \<open>textStr[i]\<close> is \<open>undefined\<close>, which
  the test reads as the string "undefined": no match.
\<close>

definition isBoundaryAt :: "Unicode \<Rightarrow> jsstring \<Rightarrow> nat \<Rightarrow> bool" where
  "isBoundaryAt U s i =
     (if i < length s then isWhitespace (s ! i) \<or> isPunctuation U (s ! i) else False)"

fun scanLeft :: "Unicode \<Rightarrow> jsstring \<Rightarrow> nat \<Rightarrow> nat" where
  "scanLeft U s 0 = 0"
| "scanLeft U s (Suc n) = (if \<not> isBoundaryAt U s n then scanLeft U s n else Suc n)"

function scanRight :: "Unicode \<Rightarrow> jsstring \<Rightarrow> nat \<Rightarrow> nat" where
  "scanRight U s e =
     (if e < length s \<and> \<not> isBoundaryAt U s e then scanRight U s (Suc e) else e)"
  by pat_completeness auto
termination
  by (relation "measure (\<lambda>(U, s, e). length s - e)") auto

declare scanRight.simps [simp del]

definition targetStart :: "Unicode \<Rightarrow> Document \<Rightarrow> nat" where
  "targetStart U d =
     (if selectionStart d = selectionEnd d then scanLeft U (doc_text d) (selectionStart d)
      else selectionStart d)"

definition targetEnd :: "Unicode \<Rightarrow> Document \<Rightarrow> nat" where
  "targetEnd U d =
     (if selectionStart d = selectionEnd d then scanRight U (doc_text d) (selectionEnd d)
      else selectionEnd d)"

definition isUpper :: "Unicode \<Rightarrow> jsstring \<Rightarrow> bool" where
  "isUpper U selectedText \<longleftrightarrow> selectedText = toUpperCase U selectedText"

definition isLower :: "Unicode \<Rightarrow> jsstring \<Rightarrow> bool" where
  "isLower U selectedText \<longleftrightarrow> selectedText = toLowerCase U selectedText"

definition isTitle :: "Unicode \<Rightarrow> jsstring \<Rightarrow> bool" where
  "isTitle U selectedText \<longleftrightarrow>
     (let firstChar = take 1 selectedText; rest = drop 1 selectedText
      in firstChar = toUpperCase U firstChar \<and> rest = toLowerCase U rest
         \<and> \<not> isUpper U selectedText)"

definition newTextChunk :: "Unicode \<Rightarrow> jsstring \<Rightarrow> jsstring" where
  "newTextChunk U selectedText =
     (let firstChar = take 1 selectedText; rest = drop 1 selectedText
      in if isLower U selectedText then toUpperCase U firstChar @ toLowerCase U rest
         else if isTitle U selectedText then toUpperCase U selectedText
         else toLowerCase U selectedText)"

definition toggleCase :: "Unicode \<Rightarrow> Document \<Rightarrow> Document" where
  "toggleCase U d =
     (let textStr = doc_text d;
          ts = targetStart U d;
          te = targetEnd U d
      in if ts = te then d
         else
           (let selectedText = substring textStr (int ts) (int te)
            in if selectedText = [] then d
               else
                 (let chunk = newTextChunk U selectedText;
                      newFullText = substring textStr 0 (int ts) @ chunk @ substringFrom textStr (int te)
                  in setSelection newFullText (int ts) (int ts + int (length chunk)))))"


section \<open>The playback cursor (App.tsx, line 305)\<close>

text \<open>
  \<open>Math.min(Math.floor(textLength * percentage), textLength)\<close>. The fraction is a
  JavaScript number; the model takes it as a real and the product as exact.
\<close>

definition mapProgress :: "real \<Rightarrow> nat \<Rightarrow> int" where
  "mapProgress percentage textLength =
     min \<lfloor>real textLength * percentage\<rfloor> (int textLength)"


section \<open>Recognition results (App.tsx, lines 33 to 62)\<close>

datatype Language = ES | EN | FR

text \<open>
  A recognition result carries its finality flag and the transcripts of its alternatives
  (the confidence is not read). \<open>results[i][0].transcript\<close> throws a TypeError when the
  result has no alternative; the handler then stops before it has changed anything.
\<close>

record SpeechRecognitionResult =
  isFinal :: bool
  alternatives :: "jsstring list"

record SpeechRecognitionEvent =
  resultIndex :: nat
  results :: "SpeechRecognitionResult list"

fun finalTranscript :: "SpeechRecognitionResult list \<Rightarrow> jsstring \<Rightarrow> jsstring option" where
  "finalTranscript [] acc = Some acc"
| "finalTranscript (r # rs) acc =
     (if isFinal r then
        (case alternatives r of
           [] \<Rightarrow> None
         | transcript # _ \<Rightarrow> finalTranscript rs (acc @ transcript))
      else finalTranscript rs acc)"

definition finalTranscriptChunk :: "SpeechRecognitionEvent \<Rightarrow> jsstring option" where
  "finalTranscriptChunk ev = finalTranscript (drop (resultIndex ev) (results ev)) []"

text \<open>The characters of the class \<open>[.,;:!?]\<close>.\<close>

definition noSpaceBefore :: "jschar set" where
  "noSpaceBefore = {0x2E, 0x2C, 0x3B, 0x3A, 0x21, 0x3F}"

text \<open>
  The local variable \<open>separator\<close>: \<open>/\s$/\<close> tests the last character of the current
  text, \<open>/^[.,;:!?]/\<close> the first character of the trimmed processed chunk.
\<close>

definition separator :: "jsstring \<Rightarrow> jsstring \<Rightarrow> jsstring" where
  "separator currentText processedChunk =
     (if length currentText > 0 \<and> \<not> isWhitespace (last currentText) then
        (if \<not> (trim processedChunk \<noteq> [] \<and> hd (trim processedChunk) \<in> noSpaceBefore)
         then [SP] else [])
      else [])"

text \<open>
  \<open>processTextChunk\<close> (services/textProcessing) is a parameter of the handler's model.
\<close>

type_synonym TextProcessor = "jsstring \<Rightarrow> jsstring \<Rightarrow> Language \<Rightarrow> jsstring"

definition onresult :: "TextProcessor \<Rightarrow> Language \<Rightarrow> Document \<Rightarrow> SpeechRecognitionEvent \<Rightarrow> Document" where
  "onresult processTextChunk lang d ev =
     (case finalTranscriptChunk ev of
        None \<Rightarrow> d
      | Some chunk \<Rightarrow>
          if chunk \<noteq> [] then
            (let currentText = doc_text d;
                 processedChunk = processTextChunk chunk currentText lang
             in insertTextAtCursor d (separator currentText processedChunk @ trim processedChunk))
          else d)"

text \<open>
  Modelled from the spec: \<open>processTextChunk\<close> of services/textProcessing is not among
  the sources. Section 4.2 gives its contract as \<open>normalize\<close>: trim leading and trailing
  whitespace; if the context is empty or its last non-whitespace character is a sentence
  terminator (\<open>. ! ?\<close>), capitalize the first letter of the chunk; otherwise leave the
  case as the recognizer produced it.
\<close>

definition normalize_chunk :: "Unicode \<Rightarrow> TextProcessor" where
  "normalize_chunk U rawChunk contextText lang =
     (let chunk = trim rawChunk; ctx = trimEnd contextText
      in if ctx = [] \<or> last ctx \<in> {0x2E, 0x21, 0x3F}
         then toUpperCase U (take 1 chunk) @ drop 1 chunk
         else chunk)"

text \<open>
  The Basic Latin rows of the Unicode tables. On ASCII strings they give what the host
  gives; they serve to run the model on ASCII texts.
\<close>

definition asciiUpper :: "jschar \<Rightarrow> jschar" where
  "asciiUpper c = (if 0x61 \<le> c \<and> c \<le> 0x7A then c - 0x20 else c)"

definition asciiLower :: "jschar \<Rightarrow> jschar" where
  "asciiLower c = (if 0x41 \<le> c \<and> c \<le> 0x5A then c + 0x20 else c)"

definition asciiPunctuation :: "jschar \<Rightarrow> bool" where
  "asciiPunctuation c \<longleftrightarrow>
     c \<in> {0x21, 0x22, 0x23, 0x25, 0x26, 0x27, 0x28, 0x29, 0x2A, 0x2C, 0x2D, 0x2E, 0x2F,
          0x3A, 0x3B, 0x3F, 0x40, 0x5B, 0x5C, 0x5D, 0x5F, 0x7B, 0x7D}"

definition asciiTables :: Unicode where
  "asciiTables =
     \<lparr>toUpperCase = map asciiUpper, toLowerCase = map asciiLower,
      isPunctuation = asciiPunctuation\<rparr>"

section \<open>The application state and its event handlers\<close>

datatype AudioState = Idle | Loading | Playing

text \<open>
  Modelled from the spec: \<open>speakText\<close> of services/geminiService is not among the
  sources. Section 6 gives its interface: it accepts the text, the language, a progress
  callback that receives a fraction between 0 and 1, and a completion callback, and it
  returns (asynchronously: \<open>handlePlay\<close> awaits it) a stop function that cancels the
  utterance. One call is recorded with the text length its progress callback has
  captured, whether its promise has resolved (handing over the stop function), and
  whether it is over (completed or stopped), after which it calls back no more.
\<close>

record Utterance =
  textLength :: nat
  resolved :: bool
  finished :: bool

text \<open>
  The React state (\<open>text\<close> with the textarea's selection, \<open>language\<close>, \<open>isListening\<close>,
  \<open>audioState\<close>), the refs (\<open>shouldListenRef\<close>, \<open>stopAudioRef\<close>: the utterance whose stop
  function is stored, \<open>recognitionRef\<close>: whether an engine exists), and the collaborators:
  how often \<open>recognition.start()\<close> and \<open>recognition.stop()\<close> have been invoked, and the
  calls of \<open>speakText\<close> so far. Every handler runs to completion and the component is
  rendered again before the next event, so a handler reads the current state.
\<close>

record App =
  doc :: Document
  language :: Language
  isListening :: bool
  audioState :: AudioState
  shouldListen :: bool
  stopAudio :: "nat option"
  hasRecognition :: bool
  startCalls :: nat
  stopCalls :: nat
  utterances :: "Utterance list"

definition initApp :: "bool \<Rightarrow> App" where
  "initApp supported =
     \<lparr>doc = \<lparr>doc_text = [], selectionStart = 0, selectionEnd = 0\<rparr>,
      language = ES, isListening = False, audioState = Idle, shouldListen = False,
      stopAudio = None, hasRecognition = supported, startCalls = 0, stopCalls = 0,
      utterances = []\<rparr>"

definition handleStopAudio :: "App \<Rightarrow> App" where
  "handleStopAudio s =
     (case stopAudio s of
        Some u \<Rightarrow>
          s\<lparr>utterances := (utterances s)[u := (utterances s ! u)\<lparr>finished := True\<rparr>],
            stopAudio := None, audioState := Idle\<rparr>
      | None \<Rightarrow> s\<lparr>audioState := Idle\<rparr>)"

text \<open>
  \<open>recognition.start()\<close> may throw; \<open>startThrows\<close> says whether the call made by this
  handler does.
\<close>

definition toggleListening :: "bool \<Rightarrow> App \<Rightarrow> App" where
  "toggleListening startThrows s =
     (if \<not> hasRecognition s then s
      else if shouldListen s then
        s\<lparr>shouldListen := False, stopCalls := stopCalls s + 1, isListening := False\<rparr>
      else
        (let s1 = (if audioState s \<noteq> Idle then handleStopAudio s else s);
             s2 = s1\<lparr>shouldListen := True, startCalls := startCalls s1 + 1\<rparr>
         in if startThrows then s2\<lparr>isListening := False, shouldListen := False\<rparr>
            else s2\<lparr>isListening := True\<rparr>))"

definition onerror :: "jsstring \<Rightarrow> App \<Rightarrow> App" where
  "onerror error s =
     (if error = js ''not-allowed'' \<or> error = js ''service-not-allowed''
      then s\<lparr>isListening := False, shouldListen := False\<rparr>
      else s)"

definition onend :: "bool \<Rightarrow> App \<Rightarrow> App" where
  "onend startThrows s =
     (if shouldListen s then
        (let s1 = s\<lparr>startCalls := startCalls s + 1\<rparr>
         in if startThrows then s1\<lparr>isListening := False, shouldListen := False\<rparr> else s1)
      else s\<lparr>isListening := False\<rparr>)"

datatype KeyType = K_CHAR | K_BACKSPACE | K_ENTER | K_SPACE | K_DELETE_WORD | K_TOGGLE_CASE

definition handleKeyboardPress :: "Unicode \<Rightarrow> jsstring \<Rightarrow> KeyType \<Rightarrow> App \<Rightarrow> App" where
  "handleKeyboardPress U key type s =
     (let s1 = (if audioState s \<noteq> Idle then handleStopAudio s else s)
      in if type = K_BACKSPACE then s1\<lparr>doc := deleteAtCursor (doc s1) M_CHAR\<rparr>
         else if type = K_DELETE_WORD then s1\<lparr>doc := deleteAtCursor (doc s1) M_WORD\<rparr>
         else if type = K_TOGGLE_CASE then s1\<lparr>doc := toggleCase U (doc s1)\<rparr>
         else s1\<lparr>doc := insertTextAtCursor (doc s1) key\<rparr>)"

definition handleClear :: "App \<Rightarrow> App" where
  "handleClear s =
     (let s1 = s\<lparr>doc := \<lparr>doc_text = [], selectionStart = 0, selectionEnd = 0\<rparr>\<rparr>
      in if audioState s \<noteq> Idle then handleStopAudio s1 else s1)"

text \<open>The textarea's \<open>onChange\<close>: the user has edited the field directly.\<close>

definition onChange :: "Document \<Rightarrow> App \<Rightarrow> App" where
  "onChange d s =
     (let s1 = s\<lparr>doc := d\<rparr>
      in if audioState s \<noteq> Idle then handleStopAudio s1 else s1)"

text \<open>\<open>handlePlay\<close> up to its \<open>await\<close>: the call of \<open>speakText\<close> is recorded.\<close>

definition handlePlay :: "App \<Rightarrow> App" where
  "handlePlay s =
     (if trim (doc_text (doc s)) = [] then s
      else
        (let s1 = (if shouldListen s then toggleListening False s else s)
         in s1\<lparr>audioState := Loading,
               utterances := utterances s1 @
                 [\<lparr>textLength = length (doc_text (doc s)), resolved = False, finished = False\<rparr>]\<rparr>))"

text \<open>\<open>handlePlay\<close> after its \<open>await\<close>: the stop function of utterance \<open>u\<close> is stored.\<close>

definition speakResolved :: "nat \<Rightarrow> App \<Rightarrow> App" where
  "speakResolved u s =
     s\<lparr>utterances := (utterances s)[u := (utterances s ! u)\<lparr>resolved := True\<rparr>],
       stopAudio := Some u\<rparr>"

definition onProgress :: "nat \<Rightarrow> real \<Rightarrow> App \<Rightarrow> App" where
  "onProgress u percentage s =
     (let cursorPosition = mapProgress percentage (textLength (utterances s ! u))
      in s\<lparr>audioState := Playing,
           doc := setSelection (doc_text (doc s)) cursorPosition cursorPosition\<rparr>)"

definition onComplete :: "nat \<Rightarrow> App \<Rightarrow> App" where
  "onComplete u s =
     s\<lparr>utterances := (utterances s)[u := (utterances s ! u)\<lparr>finished := True\<rparr>],
       audioState := Idle, stopAudio := None\<rparr>"

text \<open>
  The events the single-threaded event loop dispatches. The callbacks of an utterance can
  only come while it is not over, with a fraction between 0 and 1, and its promise
  resolves once; an event that cannot occur has no successor state.
\<close>

datatype Event =
    Toggle bool
  | EngineResult SpeechRecognitionEvent
  | EngineError jsstring
  | EngineEnd bool
  | KeyPress jsstring KeyType
  | Change Document
  | Clear
  | Play
  | StopAudio
  | SpeakResolved nat
  | Progress nat real
  | Complete nat

definition step :: "Unicode \<Rightarrow> TextProcessor \<Rightarrow> App \<Rightarrow> Event \<Rightarrow> App option" where
  "step U processTextChunk s e =
     (case e of
        Toggle startThrows \<Rightarrow> Some (toggleListening startThrows s)
      | EngineResult ev \<Rightarrow> Some (s\<lparr>doc := onresult processTextChunk (language s) (doc s) ev\<rparr>)
      | EngineError error \<Rightarrow> Some (onerror error s)
      | EngineEnd startThrows \<Rightarrow> Some (onend startThrows s)
      | KeyPress key type \<Rightarrow> Some (handleKeyboardPress U key type s)
      | Change d \<Rightarrow> if valid d then Some (onChange d s) else None
      | Clear \<Rightarrow> Some (handleClear s)
      | Play \<Rightarrow> Some (handlePlay s)
      | StopAudio \<Rightarrow> Some (handleStopAudio s)
      | SpeakResolved u \<Rightarrow>
          if u < length (utterances s) \<and> \<not> resolved (utterances s ! u)
          then Some (speakResolved u s) else None
      | Progress u percentage \<Rightarrow>
          if u < length (utterances s) \<and> \<not> finished (utterances s ! u)
             \<and> 0 \<le> percentage \<and> percentage \<le> 1
          then Some (onProgress u percentage s) else None
      | Complete u \<Rightarrow>
          if u < length (utterances s) \<and> \<not> finished (utterances s ! u)
          then Some (onComplete u s) else None)"

fun run :: "Unicode \<Rightarrow> TextProcessor \<Rightarrow> App \<Rightarrow> Event list \<Rightarrow> App option" where
  "run U processTextChunk s [] = Some s"
| "run U processTextChunk s (e # es) =
     (case step U processTextChunk s e of
        None \<Rightarrow> None
      | Some s' \<Rightarrow> run U processTextChunk s' es)"

text \<open>
  The spec's deletion boundary of word mode (section 4.3): one past the last space of
  the prefix before the caret with its trailing whitespace trimmed, or 0 when that
  prefix has no space.
\<close>

definition wordBoundary :: "jsstring \<Rightarrow> nat \<Rightarrow> nat" where
  "wordBoundary s p =
     (let lastSpaceIndex = lastIndexOf (trimEnd (take p s)) SP
      in if lastSpaceIndex = - 1 then 0 else nat (lastSpaceIndex + 1))"

text \<open>Whether the session state (\<open>isListening\<close>) agrees with the user's intent.\<close>

definition listenInv :: "App \<Rightarrow> bool" where
  "listenInv s \<longleftrightarrow> isListening s = shouldListen s"

text \<open>The application after a first \<open>toggle()\<close> whose \<open>start()\<close> succeeds.\<close>

definition listening :: App where
  "listening = toggleListening False (initApp True)"

text \<open>A recognition event that delivers one final result with one transcript.\<close>

definition heard :: "jsstring \<Rightarrow> SpeechRecognitionEvent" where
  "heard transcript =
     \<lparr>resultIndex = 0, results = [\<lparr>isFinal = True, alternatives = [transcript]\<rparr>]\<rparr>"

section \<open>Basic facts\<close>

lemma substring_prefix: "substring s 0 (int n) = take n s"
  by (cases "n \<le> length s") (simp_all add: substring_def Let_def min_def max_def)

lemma substringFrom_suffix: "substringFrom s (int n) = drop n s"
  by (cases "n \<le> length s") (simp_all add: substringFrom_def substring_def Let_def min_def max_def)

lemma insertTextAtCursor_text:
  "doc_text (insertTextAtCursor d s) = take (selectionStart d) (doc_text d) @ s @ drop (selectionEnd d) (doc_text d)"
  by (simp add: insertTextAtCursor_def Let_def substring_prefix substringFrom_suffix setSelection_def)

section \<open>Insertion at the cursor\<close>

text \<open>
  C3 (as stated, refuted): the spec says that for every valid document the new text is
  longer than the old one by exactly the length of the inserted string. With the whole
  of "ab" selected, inserting "x" gives the text "x", of length 1 and not 3.
\<close>

theorem insertTextAtCursor_length_counterexample:
  "valid \<lparr>doc_text = js ''ab'', selectionStart = 0, selectionEnd = 2\<rparr> \<and>
   length (doc_text (insertTextAtCursor \<lparr>doc_text = js ''ab'', selectionStart = 0, selectionEnd = 2\<rparr> (js ''x'')))
     \<noteq> length (doc_text \<lparr>doc_text = js ''ab'', selectionStart = 0, selectionEnd = 2\<rparr>) + length (js ''x'')"
  by (simp add: valid_def insertTextAtCursor_text js_def)

text \<open>
  C3 (amended): for every valid document and every string, insertTextAtCursor replaces
  the selected range by the string: the new text is the old text before the selection
  start, then the string, then the old text from the selection end on; its length is the
  old length minus the length of the selection plus the length of the string (so the old
  length plus the length of the string exactly when the selection was collapsed); the
  caret ends collapsed at the old selection start plus the length of the string; and the
  new document is valid.
\<close>

theorem insertTextAtCursor_replaces_selection:
  assumes "valid d"
  shows "doc_text (insertTextAtCursor d s)
           = take (selectionStart d) (doc_text d) @ s @ drop (selectionEnd d) (doc_text d)
       \<and> length (doc_text (insertTextAtCursor d s)) + (selectionEnd d - selectionStart d)
           = length (doc_text d) + length s
       \<and> selectionStart (insertTextAtCursor d s) = selectionStart d + length s
       \<and> selectionEnd (insertTextAtCursor d s) = selectionStart d + length s
       \<and> valid (insertTextAtCursor d s)"
proof -
  let ?n = "insertTextAtCursor d s"
  from assms have le: "selectionStart d \<le> selectionEnd d" "selectionEnd d \<le> length (doc_text d)"
    by (simp_all add: valid_def)
  have t: "doc_text ?n = take (selectionStart d) (doc_text d) @ s @ drop (selectionEnd d) (doc_text d)"
    by (rule insertTextAtCursor_text)
  have len: "length (doc_text ?n) + (selectionEnd d - selectionStart d) = length (doc_text d) + length s"
    using le by (simp add: t)
  have sel: "selectionStart ?n = selectionStart d + length s \<and> selectionEnd ?n = selectionStart d + length s"
    using le
    by (simp add: insertTextAtCursor_def Let_def substring_prefix substringFrom_suffix
        setSelection_def min_def max_def nat_add_distrib)
  have v: "valid ?n"
    using le sel by (simp add: valid_def t)
  from t len sel v show ?thesis by simp
qed

theorem insertTextAtCursor_replaces_selection_witness:
  "valid \<lparr>doc_text = js ''ab'', selectionStart = 0, selectionEnd = 2\<rparr> \<and>
   doc_text (insertTextAtCursor \<lparr>doc_text = js ''ab'', selectionStart = 0, selectionEnd = 2\<rparr> (js ''x'')) = js ''x'' \<and>
   selectionStart (insertTextAtCursor \<lparr>doc_text = js ''ab'', selectionStart = 0, selectionEnd = 2\<rparr> (js ''x'')) = 1 \<and>
   selectionEnd (insertTextAtCursor \<lparr>doc_text = js ''ab'', selectionStart = 0, selectionEnd = 2\<rparr> (js ''x'')) = 1"
proof -
  have v: "valid \<lparr>doc_text = js ''ab'', selectionStart = 0, selectionEnd = 2\<rparr>"
    by (simp add: valid_def js_def)
  from insertTextAtCursor_replaces_selection [OF v, of "js ''x''"] v
  show ?thesis by (simp add: js_def)
qed

section \<open>Deleting a word\<close>

subsection \<open>The last index of a code unit, and trimming\<close>

lemma lastIndexOf_bounds: "- 1 \<le> lastIndexOf s c \<and> lastIndexOf s c < int (length s)"
  by (induction s) (auto simp: Let_def)

lemma lastIndexOf_none: "lastIndexOf s c = - 1 \<longleftrightarrow> c \<notin> set s"
proof (induction s)
  case Nil
  show ?case by simp
next
  case (Cons x xs)
  have "- 1 \<le> lastIndexOf xs c" using lastIndexOf_bounds by blast
  with Cons show ?case by (auto simp: Let_def)
qed

lemma lastIndexOf_hit:
  assumes "lastIndexOf s c \<noteq> - 1"
  shows "s ! nat (lastIndexOf s c) = c \<and> (\<forall>j. nat (lastIndexOf s c) < j \<and> j < length s \<longrightarrow> s ! j \<noteq> c)"
  using assms
proof (induction s)
  case Nil
  then show ?case by simp
next
  case (Cons x xs)
  have b: "- 1 \<le> lastIndexOf xs c" using lastIndexOf_bounds by blast
  show ?case
  proof (cases "lastIndexOf xs c = - 1")
    case True
    with Cons.prems have xc: "x = c" by (auto simp: Let_def split: if_splits)
    from True have "c \<notin> set xs" by (simp add: lastIndexOf_none)
    then have "\<forall>j. 0 < j \<and> j < length (x # xs) \<longrightarrow> (x # xs) ! j \<noteq> c"
      by (auto simp: nth_Cons' )
    with True xc show ?thesis by (simp add: Let_def)
  next
    case False
    with b have pos: "0 \<le> lastIndexOf xs c" by linarith
    from Cons.IH [OF False] have ih: "xs ! nat (lastIndexOf xs c) = c"
      and ih2: "\<forall>j. nat (lastIndexOf xs c) < j \<and> j < length xs \<longrightarrow> xs ! j \<noteq> c" by simp_all
    have n: "nat (lastIndexOf xs c + 1) = Suc (nat (lastIndexOf xs c))" using pos by simp
    have "\<forall>j. Suc (nat (lastIndexOf xs c)) < j \<and> j < length (x # xs) \<longrightarrow> (x # xs) ! j \<noteq> c"
    proof (intro allI impI)
      fix j assume j: "Suc (nat (lastIndexOf xs c)) < j \<and> j < length (x # xs)"
      then obtain k where k: "j = Suc k" by (cases j) auto
      with j ih2 show "(x # xs) ! j \<noteq> c" by simp
    qed
    with False ih n show ?thesis by (simp add: Let_def)
  qed
qed

lemma isWhitespace_SP: "isWhitespace SP"
  by (simp add: isWhitespace_def SP_def)

lemma trimEnd_last: "trimEnd s \<noteq> [] \<Longrightarrow> \<not> isWhitespace (last (trimEnd s))"
  unfolding trimEnd_def
  by (metis hd_dropWhile last_rev rev_is_Nil_conv rev_rev_ident)

lemma trimEnd_take: "trimEnd s = take (length (trimEnd s)) s"
proof -
  have "rev s = takeWhile isWhitespace (rev s) @ dropWhile isWhitespace (rev s)" by simp
  then have "s = rev (dropWhile isWhitespace (rev s)) @ rev (takeWhile isWhitespace (rev s))"
    by (metis rev_append rev_rev_ident)
  then have "s = trimEnd s @ rev (takeWhile isWhitespace (rev s))" by (simp add: trimEnd_def)
  then have "take (length (trimEnd s)) s = take (length (trimEnd s)) (trimEnd s @ rev (takeWhile isWhitespace (rev s)))"
    by simp
  then show ?thesis by simp
qed

lemma trimEnd_length: "length (trimEnd s) \<le> length s"
  by (simp add: trimEnd_def length_dropWhile_le [of isWhitespace "rev s", simplified])

lemma lastSpace_before_end:
  "lastIndexOf (trimEnd s) SP + 1 < int (length (trimEnd s)) \<or> trimEnd s = []"
proof (cases "trimEnd s = []")
  case True then show ?thesis by simp
next
  case False
  let ?t = "trimEnd s"
  have nl: "\<not> isWhitespace (last ?t)" using False by (rule trimEnd_last)
  have "lastIndexOf ?t SP \<noteq> int (length ?t) - 1"
  proof
    assume e: "lastIndexOf ?t SP = int (length ?t) - 1"
    with False have ne: "lastIndexOf ?t SP \<noteq> - 1" by (cases ?t) auto
    from lastIndexOf_hit [OF ne] e have "?t ! (length ?t - 1) = SP"
      by (simp add: nat_diff_distrib')
    with False have "last ?t = SP" by (simp add: last_conv_nth)
    with nl isWhitespace_SP show False by simp
  qed
  moreover have "lastIndexOf ?t SP < int (length ?t)" using lastIndexOf_bounds by blast
  ultimately show ?thesis by linarith
qed

subsection \<open>The boundary of the deletion\<close>

lemma wordBoundary_less: "0 < p \<Longrightarrow> p \<le> length s \<Longrightarrow> wordBoundary s p < p"
proof -
  assume p: "0 < p" "p \<le> length s"
  let ?t = "trimEnd (take p s)"
  have l: "length ?t \<le> p" using trimEnd_length [of "take p s"] p by simp
  show ?thesis
  proof (cases "lastIndexOf ?t SP = - 1")
    case True with p show ?thesis by (simp add: wordBoundary_def)
  next
    case False
    then have "?t \<noteq> []" by auto
    with lastSpace_before_end [of "take p s"] have "lastIndexOf ?t SP + 1 < int (length ?t)" by simp
    moreover have "- 1 \<le> lastIndexOf ?t SP" using lastIndexOf_bounds by blast
    ultimately have "nat (lastIndexOf ?t SP + 1) < p" using l by (simp add: nat_less_iff)
    with False show ?thesis by (simp add: wordBoundary_def Let_def)
  qed
qed

lemma deleteAtCursor_word_eq:
  assumes "valid d" "selectionStart d = selectionEnd d" "0 < selectionStart d"
  shows "deleteAtCursor d M_WORD =
           \<lparr>doc_text = take (wordBoundary (doc_text d) (selectionStart d)) (doc_text d) @ drop (selectionStart d) (doc_text d),
            selectionStart = wordBoundary (doc_text d) (selectionStart d),
            selectionEnd = wordBoundary (doc_text d) (selectionStart d)\<rparr>"
proof -
  let ?p = "selectionStart d" and ?s = "doc_text d"
  let ?b = "wordBoundary ?s ?p"
  from assms have pl: "?p \<le> length ?s" by (simp add: valid_def)
  have lt: "?b < ?p" using assms(3) pl by (rule wordBoundary_less)
  let ?i = "lastIndexOf (trimEnd (take ?p ?s)) SP"
  have i: "- 1 \<le> ?i" using lastIndexOf_bounds by blast
  have tgt: "(if ?i = - 1 then 0 else ?i + 1) = int ?b"
    using i by (simp add: wordBoundary_def Let_def)
  have dc: "(if int ?p - int ?b = 0 \<and> int ?p > 0 then 1 else int ?p - int ?b) = int ?p - int ?b"
    using lt by simp
  have sub: "int ?p - (int ?p - int ?b) = int ?b" by simp
  have sel: "setSelection (take ?b ?s @ drop ?p ?s) (int ?b) (int ?b)
      = \<lparr>doc_text = take ?b ?s @ drop ?p ?s, selectionStart = ?b, selectionEnd = ?b\<rparr>"
    using lt pl by (simp add: setSelection_def Let_def min_def max_def)
  have "deleteAtCursor d M_WORD = setSelection (take ?b ?s @ drop ?p ?s) (int ?b) (int ?b)"
    unfolding deleteAtCursor_def Let_def substring_prefix tgt dc sub
    using assms(2,3) by (simp add: substring_prefix substringFrom_suffix)
  with sel show ?thesis by simp
qed

lemma wordBoundary_stop:
  assumes "p \<le> length s"
  shows "(SP \<notin> set (trimEnd (take p s)) \<longrightarrow> wordBoundary s p = 0)
       \<and> (SP \<in> set (trimEnd (take p s)) \<longrightarrow> 0 < wordBoundary s p \<and> s ! (wordBoundary s p - 1) = SP)
       \<and> (\<forall>j. wordBoundary s p \<le> j \<and> j < length (trimEnd (take p s)) \<longrightarrow> s ! j \<noteq> SP)"
proof -
  let ?t = "trimEnd (take p s)"
  let ?i = "lastIndexOf ?t SP"
  have l: "length ?t \<le> p" using trimEnd_length [of "take p s"] assms by simp
  have nth: "\<And>j. j < length ?t \<Longrightarrow> ?t ! j = s ! j"
  proof -
    fix j assume j: "j < length ?t"
    have "?t ! j = take (length ?t) (take p s) ! j" using trimEnd_take [of "take p s"] by simp
    also have "\<dots> = s ! j" using j l by simp
    finally show "?t ! j = s ! j" .
  qed
  show ?thesis
  proof (cases "?i = - 1")
    case True
    then have no: "SP \<notin> set ?t" by (simp add: lastIndexOf_none)
    have b: "wordBoundary s p = 0" using True by (simp add: wordBoundary_def)
    have "\<forall>j. j < length ?t \<longrightarrow> s ! j \<noteq> SP"
    proof (intro allI impI)
      fix j assume j: "j < length ?t"
      then have "?t ! j \<in> set ?t" by simp
      with no have "?t ! j \<noteq> SP" by metis
      with nth [OF j] show "s ! j \<noteq> SP" by simp
    qed
    with no b show ?thesis by simp
  next
    case False
    then have mem: "SP \<in> set ?t" by (simp add: lastIndexOf_none)
    have lo: "- 1 \<le> ?i" and hi: "?i < int (length ?t)" using lastIndexOf_bounds by blast+
    with False have pos: "0 \<le> ?i" by linarith
    have b: "wordBoundary s p = Suc (nat ?i)" using False pos by (simp add: wordBoundary_def Let_def nat_add_distrib)
    have il: "nat ?i < length ?t" using hi pos by simp
    from lastIndexOf_hit [OF False] have h1: "?t ! nat ?i = SP"
      and h2: "\<forall>j. nat ?i < j \<and> j < length ?t \<longrightarrow> ?t ! j \<noteq> SP" by simp_all
    have a: "s ! (wordBoundary s p - 1) = SP" using h1 nth [OF il] b by simp
    have "\<forall>j. wordBoundary s p \<le> j \<and> j < length ?t \<longrightarrow> s ! j \<noteq> SP"
    proof (intro allI impI)
      fix j assume j: "wordBoundary s p \<le> j \<and> j < length ?t"
      with b have "nat ?i < j \<and> j < length ?t" by simp
      with h2 have "?t ! j \<noteq> SP" by simp
      with nth j show "s ! j \<noteq> SP" by simp
    qed
    with mem a b show ?thesis by simp
  qed
qed

text \<open>
  C6: for every document with a collapsed caret at a position \<open>p > 0\<close>, deleteAtCursor in
  word mode deletes back to the boundary \<open>lastSpaceIndex + 1\<close> of the whitespace-trimmed
  prefix before the caret (0 if the prefix has no space) and leaves the caret collapsed
  at the boundary. The boundary lies strictly before the caret, so the computed delete
  count is never zero and the branch that falls back to one character is not taken.
  On "hello world" with the caret at 11 the result is "hello " with the caret at 6.
\<close>

theorem deleteAtCursor_word_boundary:
  "(valid d \<and> selectionStart d = selectionEnd d \<and> 0 < selectionStart d \<longrightarrow>
      wordBoundary (doc_text d) (selectionStart d) < selectionStart d \<and>
      deleteAtCursor d M_WORD =
        \<lparr>doc_text = take (wordBoundary (doc_text d) (selectionStart d)) (doc_text d)
                      @ drop (selectionStart d) (doc_text d),
         selectionStart = wordBoundary (doc_text d) (selectionStart d),
         selectionEnd = wordBoundary (doc_text d) (selectionStart d)\<rparr>)
   \<and> deleteAtCursor \<lparr>doc_text = js ''hello world'', selectionStart = 11, selectionEnd = 11\<rparr> M_WORD
       = \<lparr>doc_text = js ''hello '', selectionStart = 6, selectionEnd = 6\<rparr>"
proof (intro conjI impI)
  assume a: "valid d \<and> selectionStart d = selectionEnd d \<and> 0 < selectionStart d"
  then have "selectionStart d \<le> length (doc_text d)" by (simp add: valid_def)
  with a show "wordBoundary (doc_text d) (selectionStart d) < selectionStart d"
    by (simp add: wordBoundary_less)
  from a show "deleteAtCursor d M_WORD =
        \<lparr>doc_text = take (wordBoundary (doc_text d) (selectionStart d)) (doc_text d)
                      @ drop (selectionStart d) (doc_text d),
         selectionStart = wordBoundary (doc_text d) (selectionStart d),
         selectionEnd = wordBoundary (doc_text d) (selectionStart d)\<rparr>"
    by (simp add: deleteAtCursor_word_eq)
next
  show "deleteAtCursor \<lparr>doc_text = js ''hello world'', selectionStart = 11, selectionEnd = 11\<rparr> M_WORD
       = \<lparr>doc_text = js ''hello '', selectionStart = 6, selectionEnd = 6\<rparr>"
    by (simp add: deleteAtCursor_def js_def Let_def substring_def substringFrom_def trimEnd_def
        isWhitespace_def SP_def setSelection_def)
qed

theorem deleteAtCursor_word_boundary_witness:
  "valid \<lparr>doc_text = js ''one two  '', selectionStart = 9, selectionEnd = 9\<rparr>
   \<and> wordBoundary (js ''one two  '') 9 = 4
   \<and> deleteAtCursor \<lparr>doc_text = js ''one two  '', selectionStart = 9, selectionEnd = 9\<rparr> M_WORD
       = \<lparr>doc_text = js ''one '', selectionStart = 4, selectionEnd = 4\<rparr>"
proof -
  let ?d = "\<lparr>doc_text = js ''one two  '', selectionStart = 9, selectionEnd = 9\<rparr>"
  have v: "valid ?d \<and> selectionStart ?d = selectionEnd ?d \<and> 0 < selectionStart ?d"
    by (simp add: valid_def js_def)
  have b: "wordBoundary (js ''one two  '') 9 = 4"
    by (simp add: wordBoundary_def js_def Let_def trimEnd_def isWhitespace_def SP_def)
  from deleteAtCursor_word_boundary [of ?d] v b show ?thesis
    by (simp add: js_def)
qed

text \<open>
  C10: word-mode delete stops only at the ASCII space U+0020. With \<open>b\<close> the caret after
  the deletion: everything from \<open>b\<close> up to the old caret is removed; \<open>b\<close> is 0 when the
  trimmed prefix before the caret has no ASCII space, and otherwise \<open>b\<close> is one past an
  ASCII space; no ASCII space lies in the trimmed prefix from \<open>b\<close> on, whatever other
  whitespace (newlines, tabs) does. So "ab", newline, tab, "cd" is deleted whole in one
  step, and "x ab", newline, "cd" is deleted back to "x ".
\<close>

theorem deleteAtCursor_word_ascii_space_only:
  "(valid d \<and> selectionStart d = selectionEnd d \<and> 0 < selectionStart d \<longrightarrow>
      (let p = selectionStart d;
           s = doc_text d;
           t = trimEnd (take p s);
           b = selectionStart (deleteAtCursor d M_WORD)
       in doc_text (deleteAtCursor d M_WORD) = take b s @ drop p s
          \<and> selectionEnd (deleteAtCursor d M_WORD) = b
          \<and> b < p
          \<and> (SP \<notin> set t \<longrightarrow> b = 0)
          \<and> (SP \<in> set t \<longrightarrow> 0 < b \<and> s ! (b - 1) = SP)
          \<and> (\<forall>j. b \<le> j \<and> j < length t \<longrightarrow> s ! j \<noteq> SP)))
   \<and> deleteAtCursor \<lparr>doc_text = js ''ab'' @ [0x0A, 0x09] @ js ''cd'', selectionStart = 6, selectionEnd = 6\<rparr> M_WORD
       = \<lparr>doc_text = [], selectionStart = 0, selectionEnd = 0\<rparr>
   \<and> deleteAtCursor \<lparr>doc_text = js ''x ab'' @ [0x0A] @ js ''cd'', selectionStart = 7, selectionEnd = 7\<rparr> M_WORD
       = \<lparr>doc_text = js ''x '', selectionStart = 2, selectionEnd = 2\<rparr>"
proof (intro conjI impI)
  assume a: "valid d \<and> selectionStart d = selectionEnd d \<and> 0 < selectionStart d"
  then have pl: "selectionStart d \<le> length (doc_text d)" by (simp add: valid_def)
  from a have eq: "deleteAtCursor d M_WORD =
        \<lparr>doc_text = take (wordBoundary (doc_text d) (selectionStart d)) (doc_text d)
                      @ drop (selectionStart d) (doc_text d),
         selectionStart = wordBoundary (doc_text d) (selectionStart d),
         selectionEnd = wordBoundary (doc_text d) (selectionStart d)\<rparr>"
    by (simp add: deleteAtCursor_word_eq)
  have lt: "wordBoundary (doc_text d) (selectionStart d) < selectionStart d"
    using a pl by (simp add: wordBoundary_less)
  from wordBoundary_stop [OF pl] lt
  show "let p = selectionStart d;
           s = doc_text d;
           t = trimEnd (take p s);
           b = selectionStart (deleteAtCursor d M_WORD)
       in doc_text (deleteAtCursor d M_WORD) = take b s @ drop p s
          \<and> selectionEnd (deleteAtCursor d M_WORD) = b
          \<and> b < p
          \<and> (SP \<notin> set t \<longrightarrow> b = 0)
          \<and> (SP \<in> set t \<longrightarrow> 0 < b \<and> s ! (b - 1) = SP)
          \<and> (\<forall>j. b \<le> j \<and> j < length t \<longrightarrow> s ! j \<noteq> SP)"
    unfolding Let_def eq by simp
next
  show "deleteAtCursor \<lparr>doc_text = js ''ab'' @ [0x0A, 0x09] @ js ''cd'', selectionStart = 6, selectionEnd = 6\<rparr> M_WORD
       = \<lparr>doc_text = [], selectionStart = 0, selectionEnd = 0\<rparr>"
    by (simp add: deleteAtCursor_def js_def Let_def substring_def substringFrom_def trimEnd_def
        isWhitespace_def SP_def setSelection_def)
next
  show "deleteAtCursor \<lparr>doc_text = js ''x ab'' @ [0x0A] @ js ''cd'', selectionStart = 7, selectionEnd = 7\<rparr> M_WORD
       = \<lparr>doc_text = js ''x '', selectionStart = 2, selectionEnd = 2\<rparr>"
    by (simp add: deleteAtCursor_def js_def Let_def substring_def substringFrom_def trimEnd_def
        isWhitespace_def SP_def setSelection_def)
qed

theorem deleteAtCursor_word_ascii_space_only_witness:
  "valid \<lparr>doc_text = js ''ab'' @ [0x0A, 0x09] @ js ''cd'', selectionStart = 6, selectionEnd = 6\<rparr>
   \<and> SP \<notin> set (trimEnd (take 6 (js ''ab'' @ [0x0A, 0x09] @ js ''cd'')))
   \<and> 0x0A \<in> set (trimEnd (take 6 (js ''ab'' @ [0x0A, 0x09] @ js ''cd'')))
   \<and> selectionStart (deleteAtCursor \<lparr>doc_text = js ''ab'' @ [0x0A, 0x09] @ js ''cd'', selectionStart = 6, selectionEnd = 6\<rparr> M_WORD) = 0
   \<and> doc_text (deleteAtCursor \<lparr>doc_text = js ''ab'' @ [0x0A, 0x09] @ js ''cd'', selectionStart = 6, selectionEnd = 6\<rparr> M_WORD) = []
   \<and> valid \<lparr>doc_text = js ''x ab'' @ [0x0A] @ js ''cd'', selectionStart = 7, selectionEnd = 7\<rparr>
   \<and> SP \<in> set (trimEnd (take 7 (js ''x ab'' @ [0x0A] @ js ''cd'')))
   \<and> selectionStart (deleteAtCursor \<lparr>doc_text = js ''x ab'' @ [0x0A] @ js ''cd'', selectionStart = 7, selectionEnd = 7\<rparr> M_WORD) = 2
   \<and> (js ''x ab'' @ [0x0A] @ js ''cd'') ! (2 - 1) = SP"
proof -
  let ?s = "js ''ab'' @ [0x0A, 0x09] @ js ''cd''"
  let ?d = "\<lparr>doc_text = ?s, selectionStart = 6, selectionEnd = 6\<rparr>"
  let ?s2 = "js ''x ab'' @ [0x0A] @ js ''cd''"
  let ?d2 = "\<lparr>doc_text = ?s2, selectionStart = 7, selectionEnd = 7\<rparr>"
  have v: "valid ?d \<and> selectionStart ?d = selectionEnd ?d \<and> 0 < selectionStart ?d"
    by (simp add: valid_def js_def)
  have t: "trimEnd (take 6 ?s) = ?s"
    by (simp add: js_def trimEnd_def isWhitespace_def)
  have n: "SP \<notin> set ?s" "0x0A \<in> set ?s"
    by (simp_all add: js_def SP_def)
  from deleteAtCursor_word_ascii_space_only [of ?d, THEN conjunct1] v
  have "let p = selectionStart ?d;
           s = doc_text ?d;
           t = trimEnd (take p s);
           b = selectionStart (deleteAtCursor ?d M_WORD)
       in doc_text (deleteAtCursor ?d M_WORD) = take b s @ drop p s
          \<and> selectionEnd (deleteAtCursor ?d M_WORD) = b
          \<and> b < p
          \<and> (SP \<notin> set t \<longrightarrow> b = 0)
          \<and> (SP \<in> set t \<longrightarrow> 0 < b \<and> s ! (b - 1) = SP)
          \<and> (\<forall>j. b \<le> j \<and> j < length t \<longrightarrow> s ! j \<noteq> SP)"
    by blast
  then have "doc_text (deleteAtCursor ?d M_WORD)
        = take (selectionStart (deleteAtCursor ?d M_WORD)) ?s @ drop 6 ?s
      \<and> (SP \<notin> set (trimEnd (take 6 ?s)) \<longrightarrow> selectionStart (deleteAtCursor ?d M_WORD) = 0)"
    by (simp add: Let_def)
  with t n v have first: "selectionStart (deleteAtCursor ?d M_WORD) = 0
      \<and> doc_text (deleteAtCursor ?d M_WORD) = []" by (simp add: js_def)
  have v2: "valid ?d2 \<and> selectionStart ?d2 = selectionEnd ?d2 \<and> 0 < selectionStart ?d2"
    by (simp add: valid_def js_def)
  have t2: "trimEnd (take 7 ?s2) = ?s2"
    by (simp add: js_def trimEnd_def isWhitespace_def)
  have n2: "SP \<in> set ?s2" by (simp add: js_def SP_def)
  have b2: "selectionStart (deleteAtCursor ?d2 M_WORD) = 2"
    by (simp add: deleteAtCursor_def js_def Let_def substring_def substringFrom_def trimEnd_def
        isWhitespace_def SP_def setSelection_def)
  from deleteAtCursor_word_ascii_space_only [of ?d2, THEN conjunct1] v2
  have "let p = selectionStart ?d2;
           s = doc_text ?d2;
           t = trimEnd (take p s);
           b = selectionStart (deleteAtCursor ?d2 M_WORD)
       in doc_text (deleteAtCursor ?d2 M_WORD) = take b s @ drop p s
          \<and> selectionEnd (deleteAtCursor ?d2 M_WORD) = b
          \<and> b < p
          \<and> (SP \<notin> set t \<longrightarrow> b = 0)
          \<and> (SP \<in> set t \<longrightarrow> 0 < b \<and> s ! (b - 1) = SP)
          \<and> (\<forall>j. b \<le> j \<and> j < length t \<longrightarrow> s ! j \<noteq> SP)"
    by blast
  then have "SP \<in> set (trimEnd (take 7 ?s2)) \<longrightarrow>
      ?s2 ! (selectionStart (deleteAtCursor ?d2 M_WORD) - 1) = SP"
    by (simp add: Let_def)
  with t2 n2 b2 have second: "?s2 ! (2 - 1) = SP" by simp
  from v t n first v2 t2 n2 b2 second show ?thesis by simp
qed

section \<open>The playback cursor\<close>



text \<open>
  \<open>handlePlay\<close> returns early on a blank text, so the text length an utterance
  captures, by which the scroll ratio divides, is positive.
\<close>

lemma trim_nonempty: "trim t \<noteq> [] \<Longrightarrow> t \<noteq> []"
  by (auto simp: trim_def trimStart_def trimEnd_def)

lemma handlePlay_textLength:
  "u \<in> set (utterances (handlePlay s)) \<Longrightarrow> u \<in> set (utterances s) \<or> 0 < textLength u"
proof (cases "trim (doc_text (doc s)) = []")
  case True
  assume "u \<in> set (utterances (handlePlay s))"
  with True show ?thesis by (simp add: handlePlay_def)
next
  case False
  assume u: "u \<in> set (utterances (handlePlay s))"
  from False have "doc_text (doc s) \<noteq> []" by (rule trim_nonempty)
  with u False show ?thesis
    by (auto simp: handlePlay_def toggleListening_def Let_def split: if_splits)
qed

section \<open>The listening session\<close>

lemma handleStopAudio_fields:
  "shouldListen (handleStopAudio s) = shouldListen s"
  "isListening (handleStopAudio s) = isListening s"
  "startCalls (handleStopAudio s) = startCalls s"
  "stopCalls (handleStopAudio s) = stopCalls s"
  "hasRecognition (handleStopAudio s) = hasRecognition s"
  "audioState (handleStopAudio s) = Idle"
  by (simp_all add: handleStopAudio_def split: option.splits)

lemma step_no_toggle:
  assumes "\<not> shouldListen s" "\<forall>f. e \<noteq> Toggle f" "step U P s e = Some s'"
  shows "startCalls s' = startCalls s \<and> \<not> shouldListen s'"
proof (cases e)
  case (Toggle f)
  with assms(2) show ?thesis by blast
next
  case (EngineResult ev)
  with assms(3) have s': "s' = s\<lparr>doc := onresult P (language s) (doc s) ev\<rparr>"
    by (simp add: step_def)
  show ?thesis using assms(1) unfolding s' by simp
next
  case (EngineError err)
  with assms(3) have s': "s' = onerror err s" by (simp add: step_def)
  show ?thesis using assms(1) unfolding s' by (simp add: onerror_def)
next
  case (EngineEnd f)
  with assms(3) have s': "s' = onend f s" by (simp add: step_def)
  show ?thesis using assms(1) unfolding s' by (simp add: onend_def)
next
  case (KeyPress key type)
  with assms(3) have s': "s' = handleKeyboardPress U key type s" by (simp add: step_def)
  show ?thesis using assms(1) unfolding s'
    by (simp add: handleKeyboardPress_def Let_def handleStopAudio_fields)
next
  case (Change d)
  with assms(3) have s': "s' = onChange d s" by (simp add: step_def split: if_splits)
  show ?thesis using assms(1) unfolding s'
    by (simp add: onChange_def Let_def handleStopAudio_fields)
next
  case Clear
  with assms(3) have s': "s' = handleClear s" by (simp add: step_def)
  show ?thesis using assms(1) unfolding s'
    by (simp add: handleClear_def Let_def handleStopAudio_fields)
next
  case Play
  with assms(3) have s': "s' = handlePlay s" by (simp add: step_def)
  show ?thesis using assms(1) unfolding s'
    by (simp add: handlePlay_def Let_def)
next
  case StopAudio
  with assms(3) have s': "s' = handleStopAudio s" by (simp add: step_def)
  show ?thesis using assms(1) unfolding s' by (simp add: handleStopAudio_fields)
next
  case (SpeakResolved u)
  with assms(3) have s': "s' = speakResolved u s" by (simp add: step_def split: if_splits)
  show ?thesis using assms(1) unfolding s' by (simp add: speakResolved_def)
next
  case (Progress u pct)
  with assms(3) have s': "s' = onProgress u pct s" by (simp add: step_def split: if_splits)
  show ?thesis using assms(1) unfolding s' by (simp add: onProgress_def Let_def)
next
  case (Complete u)
  with assms(3) have s': "s' = onComplete u s" by (simp add: step_def split: if_splits)
  show ?thesis using assms(1) unfolding s' by (simp add: onComplete_def)
qed

lemma run_no_toggle:
  "\<not> shouldListen s \<Longrightarrow> \<forall>e \<in> set evs. \<forall>f. e \<noteq> Toggle f \<Longrightarrow> run U P s evs = Some s'
     \<Longrightarrow> startCalls s' = startCalls s \<and> \<not> shouldListen s'"
proof (induction evs arbitrary: s)
  case Nil
  then show ?case by simp
next
  case (Cons e evs)
  from Cons.prems(3) obtain s1 where s1: "step U P s e = Some s1" and r: "run U P s1 evs = Some s'"
    by (auto split: option.splits)
  from Cons.prems(2) have ne: "\<forall>f. e \<noteq> Toggle f" by simp
  from step_no_toggle [OF Cons.prems(1) ne s1] have k: "startCalls s1 = startCalls s" "\<not> shouldListen s1"
    by simp_all
  from Cons.prems(2) have "\<forall>e \<in> set evs. \<forall>f. e \<noteq> Toggle f" by simp
  from Cons.IH [OF k(2) this r] k(1) show ?case by simp
qed

lemma run_ends_restart:
  "shouldListen s \<Longrightarrow> \<forall>f \<in> set fs. \<not> f \<Longrightarrow>
     run U P s (map EngineEnd fs) = Some (s\<lparr>startCalls := startCalls s + length fs\<rparr>)"
proof (induction fs arbitrary: s)
  case Nil
  then show ?case by simp
next
  case (Cons f fs)
  let ?s1 = "s\<lparr>startCalls := startCalls s + 1\<rparr>"
  from Cons.prems have st: "step U P s (EngineEnd f) = Some ?s1"
    by (simp add: step_def onend_def)
  have sl: "shouldListen ?s1" using Cons.prems(1) by simp
  from Cons.prems(2) have "\<forall>f \<in> set fs. \<not> f" by auto
  from Cons.IH [OF sl this] st show ?case by simp
qed

lemma step_listenInv:
  assumes "listenInv s" "step U P s e = Some s'"
  shows "listenInv s'"
proof (cases e)
  case (Toggle f)
  with assms(2) have s': "s' = toggleListening f s" by (simp add: step_def)
  from assms(1) show ?thesis
    unfolding s' listenInv_def toggleListening_def Let_def
    by (cases f) (simp_all add: handleStopAudio_fields)
next
  case (EngineResult ev)
  with assms(2) have s': "s' = s\<lparr>doc := onresult P (language s) (doc s) ev\<rparr>"
    by (simp add: step_def)
  show ?thesis using assms(1) unfolding s' by (simp add: listenInv_def)
next
  case (EngineError err)
  with assms(2) have s': "s' = onerror err s" by (simp add: step_def)
  show ?thesis using assms(1) unfolding s' by (simp add: onerror_def listenInv_def)
next
  case (EngineEnd f)
  with assms(2) have s': "s' = onend f s" by (simp add: step_def)
  show ?thesis using assms(1) unfolding s' by (simp add: onend_def listenInv_def Let_def)
next
  case (KeyPress key type)
  with assms(2) have s': "s' = handleKeyboardPress U key type s" by (simp add: step_def)
  show ?thesis using assms(1) unfolding s'
    by (simp add: listenInv_def handleKeyboardPress_def Let_def handleStopAudio_fields)
next
  case (Change d)
  with assms(2) have s': "s' = onChange d s" by (simp add: step_def split: if_splits)
  show ?thesis using assms(1) unfolding s'
    by (simp add: listenInv_def onChange_def Let_def handleStopAudio_fields)
next
  case Clear
  with assms(2) have s': "s' = handleClear s" by (simp add: step_def)
  show ?thesis using assms(1) unfolding s'
    by (simp add: listenInv_def handleClear_def Let_def handleStopAudio_fields)
next
  case Play
  with assms(2) have s': "s' = handlePlay s" by (simp add: step_def)
  show ?thesis using assms(1) unfolding s'
    by (simp add: listenInv_def handlePlay_def toggleListening_def Let_def)
next
  case StopAudio
  with assms(2) have s': "s' = handleStopAudio s" by (simp add: step_def)
  show ?thesis using assms(1) unfolding s' by (simp add: listenInv_def handleStopAudio_fields)
next
  case (SpeakResolved u)
  with assms(2) have s': "s' = speakResolved u s" by (simp add: step_def split: if_splits)
  show ?thesis using assms(1) unfolding s' by (simp add: listenInv_def speakResolved_def)
next
  case (Progress u pct)
  with assms(2) have s': "s' = onProgress u pct s" by (simp add: step_def split: if_splits)
  show ?thesis using assms(1) unfolding s' by (simp add: listenInv_def onProgress_def Let_def)
next
  case (Complete u)
  with assms(2) have s': "s' = onComplete u s" by (simp add: step_def split: if_splits)
  show ?thesis using assms(1) unfolding s' by (simp add: listenInv_def onComplete_def)
qed

lemma run_listenInv:
  "listenInv s \<Longrightarrow> run U P s evs = Some s' \<Longrightarrow> listenInv s'"
proof (induction evs arbitrary: s)
  case Nil
  then show ?case by simp
next
  case (Cons e evs)
  from Cons.prems(2) obtain s1 where s1: "step U P s e = Some s1" and r: "run U P s1 evs = Some s'"
    by (auto split: option.splits)
  from Cons.IH [OF step_listenInv [OF Cons.prems(1) s1] r] show ?case .
qed

lemma reachable_listening_iff_intent:
  "run U P (initApp supported) evs = Some s \<Longrightarrow> isListening s = shouldListen s"
  using run_listenInv [of "initApp supported" U P evs s]
  by (simp add: listenInv_def initApp_def)

text \<open>
  C1: while the intent to listen is set, every \<open>end\<close> event whose \<open>start()\<close> succeeds
  invokes \<open>start()\<close> once and changes nothing else, so \<open>n\<close> such events make \<open>n\<close>
  invocations and leave the session state as it was (Active); an \<open>end\<close> event whose
  \<open>start()\<close> throws counts one invocation, clears the intent and stops the session; an
  \<open>end\<close> event without the intent stops the session and does not invoke \<open>start()\<close>;
  and from a state without the intent no sequence of events free of \<open>toggle()\<close> invokes
  \<open>start()\<close> or sets the intent again. In every state reached from the initial one the
  session is Active exactly when the intent is set.
\<close>

theorem onend_restart:
  "(shouldListen s \<and> (\<forall>f \<in> set fs. \<not> f) \<longrightarrow>
      run U P s (map EngineEnd fs) = Some (s\<lparr>startCalls := startCalls s + length fs\<rparr>))
   \<and> (shouldListen s \<longrightarrow>
      step U P s (EngineEnd True)
        = Some (s\<lparr>startCalls := startCalls s + 1, isListening := False, shouldListen := False\<rparr>))
   \<and> (\<not> shouldListen s \<longrightarrow> step U P s (EngineEnd f) = Some (s\<lparr>isListening := False\<rparr>))
   \<and> (\<not> shouldListen s \<and> (\<forall>e \<in> set evs. \<forall>f. e \<noteq> Toggle f) \<and> run U P s evs = Some s' \<longrightarrow>
      startCalls s' = startCalls s \<and> \<not> shouldListen s')
   \<and> (run U P (initApp supported) history = Some r \<longrightarrow> isListening r = shouldListen r)"
proof (intro conjI impI)
  assume "shouldListen s \<and> (\<forall>f \<in> set fs. \<not> f)"
  then have 1: "shouldListen s" and 2: "\<forall>f \<in> set fs. \<not> f" by blast+
  from run_ends_restart [OF 1 2]
  show "run U P s (map EngineEnd fs) = Some (s\<lparr>startCalls := startCalls s + length fs\<rparr>)" .
next
  assume "shouldListen s"
  then show "step U P s (EngineEnd True)
        = Some (s\<lparr>startCalls := startCalls s + 1, isListening := False, shouldListen := False\<rparr>)"
    by (simp add: step_def onend_def)
next
  assume "\<not> shouldListen s"
  then show "step U P s (EngineEnd f) = Some (s\<lparr>isListening := False\<rparr>)"
    by (simp add: step_def onend_def)
next
  assume a: "\<not> shouldListen s \<and> (\<forall>e \<in> set evs. \<forall>f. e \<noteq> Toggle f) \<and> run U P s evs = Some s'"
  then have 1: "\<not> shouldListen s" and 2: "\<forall>e \<in> set evs. \<forall>f. e \<noteq> Toggle f"
    and 3: "run U P s evs = Some s'" by blast+
  from run_no_toggle [OF 1 2 3] show "startCalls s' = startCalls s" by simp
  from run_no_toggle [OF 1 2 3] show "\<not> shouldListen s'" by simp
next
  assume "run U P (initApp supported) history = Some r"
  then show "isListening r = shouldListen r"
    by (rule reachable_listening_iff_intent)
qed

theorem onend_restart_witness:
  "run asciiTables (normalize_chunk asciiTables) (initApp True) [Toggle False] = Some listening
   \<and> shouldListen listening \<and> isListening listening
   \<and> run asciiTables (normalize_chunk asciiTables) listening (map EngineEnd [False, False, False])
       = Some (listening\<lparr>startCalls := 4\<rparr>)
   \<and> run asciiTables (normalize_chunk asciiTables) listening [EngineEnd False, EngineEnd True]
       = Some (listening\<lparr>startCalls := 3, isListening := False, shouldListen := False\<rparr>)
   \<and> step asciiTables (normalize_chunk asciiTables)
        (listening\<lparr>startCalls := 3, isListening := False, shouldListen := False\<rparr>) (EngineEnd False)
       = Some (listening\<lparr>startCalls := 3, isListening := False, shouldListen := False\<rparr>)
   \<and> run asciiTables (normalize_chunk asciiTables)
        (listening\<lparr>startCalls := 3, isListening := False, shouldListen := False\<rparr>)
        [EngineEnd False, EngineError (js ''no-speech''), Play, EngineEnd True]
       = Some (listening\<lparr>startCalls := 3, isListening := False, shouldListen := False\<rparr>)
   \<and> startCalls (listening\<lparr>startCalls := 3, isListening := False, shouldListen := False\<rparr>) = 3"
proof -
  let ?U = asciiTables and ?P = "normalize_chunk asciiTables"
  let ?off = "listening\<lparr>startCalls := 3, isListening := False, shouldListen := False\<rparr>"
  let ?evs = "[EngineEnd False, EngineError (js ''no-speech''), Play, EngineEnd True]"
  have l: "shouldListen listening" "startCalls listening = 1"
    by (simp_all add: listening_def initApp_def toggleListening_def)
  have h: "run ?U ?P (initApp True) [Toggle False] = Some listening"
    by (simp add: step_def listening_def)
  from onend_restart [of _ _ ?U ?P _ _ _ True "[Toggle False]" listening,
      THEN conjunct2, THEN conjunct2, THEN conjunct2, THEN conjunct2] h l(1)
  have i: "isListening listening" by (simp del: run.simps)
  have a: "run ?U ?P listening (map EngineEnd [False, False, False]) = Some (listening\<lparr>startCalls := 4\<rparr>)"
    using onend_restart [of listening "[False, False, False]" ?U ?P, THEN conjunct1] l
    by (simp del: run.simps)
  have s1: "step ?U ?P listening (EngineEnd False) = Some (listening\<lparr>startCalls := 2\<rparr>)"
    using l by (simp add: step_def onend_def)
  have s2: "step ?U ?P (listening\<lparr>startCalls := 2\<rparr>) (EngineEnd True) = Some ?off"
    using onend_restart [of "listening\<lparr>startCalls := 2\<rparr>" _ ?U ?P, THEN conjunct2, THEN conjunct1] l
    by simp
  have b: "run ?U ?P listening [EngineEnd False, EngineEnd True] = Some ?off"
    using s1 s2 by simp
  have s3: "step ?U ?P ?off (EngineEnd False) = Some ?off"
    using onend_restart [of ?off _ ?U ?P False, THEN conjunct2, THEN conjunct2, THEN conjunct1]
    by simp
  have nt: "\<forall>e \<in> set ?evs. \<forall>f. e \<noteq> Toggle f" by simp
  have bl: "trim (doc_text (doc ?off)) = []"
    by (simp add: listening_def initApp_def toggleListening_def trim_def trimStart_def trimEnd_def)
  have r: "run ?U ?P ?off ?evs = Some ?off"
    using bl by (simp add: step_def onend_def onerror_def handlePlay_def js_def)
  from onend_restart [of ?off _ ?U ?P _ ?evs ?off, THEN conjunct2, THEN conjunct2, THEN conjunct2] nt r
  have c: "startCalls ?off = 3" by (simp del: run.simps)
  from h l i a b s3 r c show ?thesis by blast
qed

text \<open>
  C8: on an error of the denial class (\<open>not-allowed\<close>, \<open>service-not-allowed\<close>) the
  handler clears the intent and stops the session at once, and the \<open>end\<close> event that
  follows restarts nothing; on every other error the handler changes nothing, and the
  \<open>end\<close> event that follows acts as it would have without the error.
\<close>

theorem onerror_denial:
  "(error = js ''not-allowed'' \<or> error = js ''service-not-allowed'' \<longrightarrow>
      step U P s (EngineError error) = Some (s\<lparr>isListening := False, shouldListen := False\<rparr>)
      \<and> run U P s [EngineError error, EngineEnd f]
          = Some (s\<lparr>isListening := False, shouldListen := False\<rparr>))
   \<and> (error \<noteq> js ''not-allowed'' \<and> error \<noteq> js ''service-not-allowed'' \<longrightarrow>
      step U P s (EngineError error) = Some s
      \<and> run U P s [EngineError error, EngineEnd f] = Some (onend f s))"
  by (simp add: step_def onerror_def onend_def)

theorem onerror_denial_witness:
  "step asciiTables (normalize_chunk asciiTables) listening (EngineError (js ''not-allowed''))
     = Some (listening\<lparr>isListening := False, shouldListen := False\<rparr>)
   \<and> step asciiTables (normalize_chunk asciiTables) listening (EngineError (js ''service-not-allowed''))
     = Some (listening\<lparr>isListening := False, shouldListen := False\<rparr>)
   \<and> js ''no-speech'' \<noteq> js ''not-allowed'' \<and> js ''no-speech'' \<noteq> js ''service-not-allowed''
   \<and> step asciiTables (normalize_chunk asciiTables) listening (EngineError (js ''no-speech'')) = Some listening
   \<and> run asciiTables (normalize_chunk asciiTables) listening [EngineError (js ''no-speech''), EngineEnd False]
     = Some (listening\<lparr>startCalls := 2\<rparr>)"
proof -
  let ?U = asciiTables and ?P = "normalize_chunk asciiTables"
  have n: "js ''no-speech'' \<noteq> js ''not-allowed'' \<and> js ''no-speech'' \<noteq> js ''service-not-allowed''"
    by (simp add: js_def)
  have l: "shouldListen listening" "startCalls listening = 1"
    by (simp_all add: listening_def initApp_def toggleListening_def)
  have e: "onend False listening = listening\<lparr>startCalls := 2\<rparr>"
    using l by (simp add: onend_def)
  from onerror_denial [of "js ''not-allowed''" ?U ?P listening False]
       onerror_denial [of "js ''service-not-allowed''" ?U ?P listening False]
       onerror_denial [of "js ''no-speech''" ?U ?P listening False] n e
  show ?thesis by (simp del: run.simps)
qed

section \<open>Inserting recognized text\<close>

lemma separator_cases: "separator currentText chunk = [SP] \<or> separator currentText chunk = []"
  by (simp add: separator_def)

lemma separator_iff:
  "separator currentText chunk = [SP] \<longleftrightarrow>
     currentText \<noteq> [] \<and> \<not> isWhitespace (last currentText)
     \<and> \<not> (\<exists>c rest. trim chunk = c # rest \<and> c \<in> noSpaceBefore)"
  by (cases "trim chunk") (auto simp: separator_def)

lemma onresult_inserts:
  assumes "finalTranscriptChunk ev = Some raw" "raw \<noteq> []"
  shows "onresult P lang d ev
          = insertTextAtCursor d (separator (doc_text d) (P raw (doc_text d) lang) @ trim (P raw (doc_text d) lang))"
  using assms by (simp add: onresult_def Let_def)

lemma heard_chunk: "finalTranscriptChunk (heard t) = Some t"
  by (simp add: heard_def finalTranscriptChunk_def)

lemmas string_defs = js_def trim_def trimStart_def trimEnd_def isWhitespace_def

lemmas insert_defs = js_def insertTextAtCursor_def substring_def substringFrom_def setSelection_def
  Let_def SP_def

lemma onresult_empty_clean_chunk:
  assumes "finalTranscriptChunk ev = Some raw" "raw \<noteq> []" "trim (P raw (doc_text d) lang) = []"
    and "doc_text d \<noteq> []" "\<not> isWhitespace (last (doc_text d))"
  shows "doc_text (onresult P lang d ev)
          = take (selectionStart d) (doc_text d) @ [SP] @ drop (selectionEnd d) (doc_text d)"
proof -
  have "separator (doc_text d) (P raw (doc_text d) lang) = [SP]"
    using assms(3,4,5) by (simp add: separator_def)
  with onresult_inserts [OF assms(1,2), of P lang d] assms(3) show ?thesis
    by (simp add: insertTextAtCursor_text)
qed

text \<open>
  C4: a batch with a non-empty transcript inserts the separator followed by the trimmed
  processed chunk at the cursor. The separator is a single space or nothing, and it is
  a space if and only if the document text is non-empty, its last character is not
  whitespace, and the trimmed chunk does not begin with one of \<open>. , ; : ! ?\<close>.
  Hearing "mundo" after "Hola" gives "Hola mundo", hearing "." after "Hola" gives "Hola.".
\<close>

theorem onresult_separator:
  "(finalTranscriptChunk ev = Some raw \<and> raw \<noteq> [] \<longrightarrow>
      onresult P lang d ev
        = insertTextAtCursor d
            (separator (doc_text d) (P raw (doc_text d) lang) @ trim (P raw (doc_text d) lang)))
   \<and> (separator currentText chunk = [SP] \<or> separator currentText chunk = [])
   \<and> (separator currentText chunk = [SP] \<longleftrightarrow>
        currentText \<noteq> [] \<and> \<not> isWhitespace (last currentText)
        \<and> \<not> (\<exists>c rest. trim chunk = c # rest \<and> c \<in> noSpaceBefore))
   \<and> onresult (normalize_chunk asciiTables) ES
        \<lparr>doc_text = js ''Hola'', selectionStart = 4, selectionEnd = 4\<rparr> (heard (js ''mundo''))
       = \<lparr>doc_text = js ''Hola mundo'', selectionStart = 10, selectionEnd = 10\<rparr>
   \<and> onresult (normalize_chunk asciiTables) ES
        \<lparr>doc_text = js ''Hola'', selectionStart = 4, selectionEnd = 4\<rparr> (heard (js ''.''))
       = \<lparr>doc_text = js ''Hola.'', selectionStart = 5, selectionEnd = 5\<rparr>"
proof (intro conjI impI)
  assume "finalTranscriptChunk ev = Some raw \<and> raw \<noteq> []"
  then show "onresult P lang d ev
        = insertTextAtCursor d
            (separator (doc_text d) (P raw (doc_text d) lang) @ trim (P raw (doc_text d) lang))"
    by (simp add: onresult_inserts)
next
  show "separator currentText chunk = [SP] \<or> separator currentText chunk = []"
    by (rule separator_cases)
next
  show "separator currentText chunk = [SP] \<longleftrightarrow>
        currentText \<noteq> [] \<and> \<not> isWhitespace (last currentText)
        \<and> \<not> (\<exists>c rest. trim chunk = c # rest \<and> c \<in> noSpaceBefore)"
    by (rule separator_iff)
next
  let ?d = "\<lparr>doc_text = js ''Hola'', selectionStart = 4, selectionEnd = 4\<rparr>"
  have n: "normalize_chunk asciiTables (js ''mundo'') (js ''Hola'') ES = js ''mundo''"
    by (simp add: string_defs normalize_chunk_def Let_def)
  have t: "trim (js ''mundo'') = js ''mundo''"
    by (simp add: string_defs)
  have p: "separator (js ''Hola'') (js ''mundo'') = [SP]"
    by (simp add: string_defs separator_def noSpaceBefore_def)
  have i: "insertTextAtCursor ?d ([SP] @ js ''mundo'')
      = \<lparr>doc_text = js ''Hola mundo'', selectionStart = 10, selectionEnd = 10\<rparr>"
    by (simp add: insert_defs)
  have "onresult (normalize_chunk asciiTables) ES ?d (heard (js ''mundo''))
      = insertTextAtCursor ?d (separator (doc_text ?d) (normalize_chunk asciiTables (js ''mundo'') (doc_text ?d) ES)
          @ trim (normalize_chunk asciiTables (js ''mundo'') (doc_text ?d) ES))"
    by (rule onresult_inserts) (simp_all add: heard_chunk js_def)
  then show "onresult (normalize_chunk asciiTables) ES ?d (heard (js ''mundo''))
       = \<lparr>doc_text = js ''Hola mundo'', selectionStart = 10, selectionEnd = 10\<rparr>"
    by (simp only: Document.simps n t p i)
next
  let ?d = "\<lparr>doc_text = js ''Hola'', selectionStart = 4, selectionEnd = 4\<rparr>"
  have n: "normalize_chunk asciiTables (js ''.'') (js ''Hola'') ES = js ''.''"
    by (simp add: string_defs normalize_chunk_def Let_def)
  have t: "trim (js ''.'') = js ''.''"
    by (simp add: string_defs)
  have p: "separator (js ''Hola'') (js ''.'') = []"
    by (simp add: string_defs separator_def noSpaceBefore_def)
  have i: "insertTextAtCursor ?d ([] @ js ''.'')
      = \<lparr>doc_text = js ''Hola.'', selectionStart = 5, selectionEnd = 5\<rparr>"
    by (simp add: insert_defs)
  have "onresult (normalize_chunk asciiTables) ES ?d (heard (js ''.''))
      = insertTextAtCursor ?d (separator (doc_text ?d) (normalize_chunk asciiTables (js ''.'') (doc_text ?d) ES)
          @ trim (normalize_chunk asciiTables (js ''.'') (doc_text ?d) ES))"
    by (rule onresult_inserts) (simp_all add: heard_chunk js_def)
  then show "onresult (normalize_chunk asciiTables) ES ?d (heard (js ''.''))
       = \<lparr>doc_text = js ''Hola.'', selectionStart = 5, selectionEnd = 5\<rparr>"
    by (simp only: Document.simps n t p i)
qed

theorem onresult_separator_witness:
  "finalTranscriptChunk (heard (js ''dos'')) = Some (js ''dos'') \<and> js ''dos'' \<noteq> []
   \<and> separator (js ''Uno'') (js ''dos'') = [SP]
   \<and> separator (js ''Uno '') (js ''dos'') = []
   \<and> separator (js '''') (js ''dos'') = []
   \<and> separator (js ''Uno'') (js '', dos'') = []
   \<and> onresult (\<lambda>raw ctx lang. raw) FR
        \<lparr>doc_text = js ''Uno'', selectionStart = 3, selectionEnd = 3\<rparr> (heard (js ''dos''))
       = \<lparr>doc_text = js ''Uno dos'', selectionStart = 7, selectionEnd = 7\<rparr>"
proof -
  let ?d = "\<lparr>doc_text = js ''Uno'', selectionStart = 3, selectionEnd = 3\<rparr>"
  let ?P = "\<lambda>(raw::jsstring) (ctx::jsstring) (lang::Language). raw"
  have h: "finalTranscriptChunk (heard (js ''dos'')) = Some (js ''dos'') \<and> js ''dos'' \<noteq> []"
    by (simp add: heard_chunk js_def)
  have t: "trim (js ''dos'') = js ''dos''" "trim (js '', dos'') = js '', dos''"
    by (simp_all add: js_def trim_def trimStart_def trimEnd_def isWhitespace_def)
  have w: "\<not> isWhitespace (last (js ''Uno''))" "isWhitespace (last (js ''Uno ''))"
    by (simp_all add: js_def isWhitespace_def)
  note inst = onresult_separator [of "heard (js ''dos'')" "js ''dos''" ?P FR ?d]
  have s1: "separator (js ''Uno'') (js ''dos'') = [SP]"
    using onresult_separator [of _ _ _ _ _ "js ''Uno''" "js ''dos''", THEN conjunct2, THEN conjunct2, THEN conjunct1] t w
    by (simp add: js_def noSpaceBefore_def)
  have s2: "separator (js ''Uno '') (js ''dos'') = []"
    using onresult_separator [of _ _ _ _ _ "js ''Uno ''" "js ''dos''", THEN conjunct2] t w
    by (auto simp: js_def)
  have s3: "separator (js '''') (js ''dos'') = []"
    using onresult_separator [of _ _ _ _ _ "js ''''" "js ''dos''", THEN conjunct2]
    by (auto simp: js_def)
  have s4: "separator (js ''Uno'') (js '', dos'') = []"
    using onresult_separator [of _ _ _ _ _ "js ''Uno''" "js '', dos''", THEN conjunct2] t
    by (auto simp: js_def noSpaceBefore_def)
  have ins: "insertTextAtCursor ?d ([SP] @ js ''dos'')
      = \<lparr>doc_text = js ''Uno dos'', selectionStart = 7, selectionEnd = 7\<rparr>"
    by (simp add: insert_defs)
  from inst [THEN conjunct1] h have "onresult ?P FR ?d (heard (js ''dos''))
      = insertTextAtCursor ?d (separator (js ''Uno'') (js ''dos'') @ trim (js ''dos''))"
    by simp
  with s1 t ins have r: "onresult ?P FR ?d (heard (js ''dos''))
      = \<lparr>doc_text = js ''Uno dos'', selectionStart = 7, selectionEnd = 7\<rparr>" by simp
  from h s1 s2 s3 s4 r show ?thesis by blast
qed

text \<open>
  C2 (the code departs from it): the spec requires that a batch whose clean chunk is
  empty is skipped, with no insertion and no separator. The handler tests the raw
  transcript, not the processed chunk: hearing the transcript " " after "Hola", the
  clean chunk is empty and the handler still inserts the separator, giving "Hola ".
\<close>

theorem onresult_blank_chunk_inserts_space:
  "normalize_chunk asciiTables (js '' '') (js ''Hola'') ES = []
   \<and> onresult (normalize_chunk asciiTables) ES
        \<lparr>doc_text = js ''Hola'', selectionStart = 4, selectionEnd = 4\<rparr> (heard (js '' ''))
       = \<lparr>doc_text = js ''Hola '', selectionStart = 5, selectionEnd = 5\<rparr>"
proof
  let ?d = "\<lparr>doc_text = js ''Hola'', selectionStart = 4, selectionEnd = 4\<rparr>"
  show n: "normalize_chunk asciiTables (js '' '') (js ''Hola'') ES = []"
    by (simp add: string_defs normalize_chunk_def Let_def asciiTables_def)
  have t: "trim [] = []"
    by (simp add: string_defs)
  have p: "separator (js ''Hola'') [] = [SP]"
    by (simp add: string_defs separator_def)
  have i: "insertTextAtCursor ?d ([SP] @ [])
      = \<lparr>doc_text = js ''Hola '', selectionStart = 5, selectionEnd = 5\<rparr>"
    by (simp add: insert_defs)
  have "onresult (normalize_chunk asciiTables) ES ?d (heard (js '' ''))
      = insertTextAtCursor ?d (separator (doc_text ?d) (normalize_chunk asciiTables (js '' '') (doc_text ?d) ES)
          @ trim (normalize_chunk asciiTables (js '' '') (doc_text ?d) ES))"
    by (rule onresult_inserts) (simp_all add: heard_chunk js_def)
  then show "onresult (normalize_chunk asciiTables) ES ?d (heard (js '' ''))
       = \<lparr>doc_text = js ''Hola '', selectionStart = 5, selectionEnd = 5\<rparr>"
    by (simp only: Document.simps n t p i)
qed

section \<open>Toggling the case\<close>

lemma scanLeft_le: "scanLeft U s n \<le> n"
  by (induction n) simp_all

lemma scanLeft_word:
  "(\<forall>i. scanLeft U s n \<le> i \<and> i < n \<longrightarrow> \<not> isBoundaryAt U s i)
   \<and> (scanLeft U s n = 0 \<or> isBoundaryAt U s (scanLeft U s n - 1))"
proof (induction n)
  case 0
  show ?case by simp
next
  case (Suc n)
  show ?case
  proof (cases "isBoundaryAt U s n")
    case True
    then show ?thesis by auto
  next
    case False
    have "\<forall>i. scanLeft U s n \<le> i \<and> i < Suc n \<longrightarrow> \<not> isBoundaryAt U s i"
    proof (intro allI impI)
      fix i assume i: "scanLeft U s n \<le> i \<and> i < Suc n"
      show "\<not> isBoundaryAt U s i"
      proof (cases "i = n")
        case True with False show ?thesis by simp
      next
        case False
        with i have "scanLeft U s n \<le> i \<and> i < n" by simp
        with Suc.IH show ?thesis by blast
      qed
    qed
    with False Suc.IH show ?thesis by simp
  qed
qed

lemma scanRight_ge: "e \<le> scanRight U s e"
proof (induction U s e rule: scanRight.induct)
  case (1 U s e)
  show ?case
  proof (cases "e < length s \<and> \<not> isBoundaryAt U s e")
    case True
    with 1 have "Suc e \<le> scanRight U s (Suc e)" by simp
    moreover from True have "scanRight U s e = scanRight U s (Suc e)"
      by (subst scanRight.simps) simp
    ultimately show ?thesis by simp
  next
    case False
    then have "scanRight U s e = e" by (subst scanRight.simps) auto
    then show ?thesis by simp
  qed
qed

lemma scanRight_le: "e \<le> length s \<Longrightarrow> scanRight U s e \<le> length s"
proof (induction U s e rule: scanRight.induct)
  case (1 U s e)
  show ?case
  proof (cases "e < length s \<and> \<not> isBoundaryAt U s e")
    case True
    with 1 have "scanRight U s (Suc e) \<le> length s" by simp
    moreover from True have "scanRight U s e = scanRight U s (Suc e)"
      by (subst scanRight.simps) simp
    ultimately show ?thesis by simp
  next
    case False
    then have "scanRight U s e = e" by (subst scanRight.simps) auto
    with 1(2) show ?thesis by simp
  qed
qed

lemma scanRight_word:
  "(\<forall>i. e \<le> i \<and> i < scanRight U s e \<longrightarrow> \<not> isBoundaryAt U s i)
   \<and> (length s \<le> scanRight U s e \<or> isBoundaryAt U s (scanRight U s e))"
proof (induction U s e rule: scanRight.induct)
  case (1 U s e)
  show ?case
  proof (cases "e < length s \<and> \<not> isBoundaryAt U s e")
    case True
    then have eq: "scanRight U s e = scanRight U s (Suc e)"
      by (subst scanRight.simps) simp
    from 1 True have ih: "(\<forall>i. Suc e \<le> i \<and> i < scanRight U s (Suc e) \<longrightarrow> \<not> isBoundaryAt U s i)
        \<and> (length s \<le> scanRight U s (Suc e) \<or> isBoundaryAt U s (scanRight U s (Suc e)))"
      by simp
    have "\<forall>i. e \<le> i \<and> i < scanRight U s (Suc e) \<longrightarrow> \<not> isBoundaryAt U s i"
    proof (intro allI impI)
      fix i assume i: "e \<le> i \<and> i < scanRight U s (Suc e)"
      show "\<not> isBoundaryAt U s i"
      proof (cases "i = e")
        case True with \<open>e < length s \<and> \<not> isBoundaryAt U s e\<close> show ?thesis by simp
      next
        case False
        with i have "Suc e \<le> i \<and> i < scanRight U s (Suc e)" by simp
        with ih show ?thesis by blast
      qed
    qed
    with ih eq show ?thesis by simp
  next
    case False
    then have eq: "scanRight U s e = e" by (subst scanRight.simps) auto
    with False show ?thesis by auto
  qed
qed

lemma target_range:
  assumes "valid d"
  shows "targetStart U d \<le> selectionStart d \<and> selectionEnd d \<le> targetEnd U d
       \<and> targetEnd U d \<le> length (doc_text d)"
proof -
  from assms have le: "selectionStart d \<le> selectionEnd d" "selectionEnd d \<le> length (doc_text d)"
    by (simp_all add: valid_def)
  show ?thesis
    using le scanLeft_le [of U "doc_text d" "selectionStart d"]
      scanRight_ge [of "selectionEnd d" U "doc_text d"]
      scanRight_le [of "selectionEnd d" "doc_text d" U]
    by (auto simp: targetStart_def targetEnd_def)
qed

lemma substring_range:
  "a \<le> b \<Longrightarrow> b \<le> length s \<Longrightarrow> substring s (int a) (int b) = take (b - a) (drop a s)"
  by (simp add: substring_def Let_def min_def max_def nat_diff_distrib')

lemma toggleCase_eq:
  assumes "valid d" "targetStart U d < targetEnd U d"
  shows "toggleCase U d =
     \<lparr>doc_text = take (targetStart U d) (doc_text d)
         @ newTextChunk U (take (targetEnd U d - targetStart U d) (drop (targetStart U d) (doc_text d)))
         @ drop (targetEnd U d) (doc_text d),
      selectionStart = targetStart U d,
      selectionEnd = targetStart U d
         + length (newTextChunk U (take (targetEnd U d - targetStart U d) (drop (targetStart U d) (doc_text d))))\<rparr>"
proof -
  let ?a = "targetStart U d" and ?b = "targetEnd U d" and ?s = "doc_text d"
  let ?sel = "take (?b - ?a) (drop ?a ?s)"
  let ?chunk = "newTextChunk U ?sel"
  from target_range [OF assms(1)] have bl: "?b \<le> length ?s" by simp
  have sub: "substring ?s (int ?a) (int ?b) = ?sel"
    using assms(2) bl by (simp add: substring_range)
  have ne: "?sel \<noteq> []" using assms(2) bl by simp
  have al: "?a \<le> length ?s" using assms(2) bl by simp
  have sel: "setSelection (take ?a ?s @ ?chunk @ drop ?b ?s) (int ?a) (int ?a + int (length ?chunk))
     = \<lparr>doc_text = take ?a ?s @ ?chunk @ drop ?b ?s, selectionStart = ?a,
        selectionEnd = ?a + length ?chunk\<rparr>"
    using al bl by (simp add: setSelection_def Let_def min_def max_def nat_add_distrib)
  have "toggleCase U d = setSelection (take ?a ?s @ ?chunk @ drop ?b ?s) (int ?a) (int ?a + int (length ?chunk))"
    unfolding toggleCase_def Let_def sub substring_prefix substringFrom_suffix
    using assms(2) ne by simp
  with sel show ?thesis by simp
qed

text \<open>
  C5: toggleCase replaces the target range (the selection, or the word around a
  collapsed caret) by its new chunk and selects the whole chunk. The chunk of an
  all-lower text is its first character in upper case followed by the rest in lower
  case; of a text that is not all-lower and is in title case, the text in upper case;
  of any other text (all-upper or mixed), the text in lower case. The code tests
  all-lower first, so a text without cased letters counts as all-lower. On "cat",
  selected or with the caret inside, three applications give "Cat", "CAT" and "cat"
  again.
\<close>

theorem toggleCase_cycle:
  "(valid d \<and> targetStart U d < targetEnd U d \<longrightarrow>
      targetStart U d \<le> selectionStart d \<and> selectionEnd d \<le> targetEnd U d
      \<and> targetEnd U d \<le> length (doc_text d)
      \<and> toggleCase U d =
          \<lparr>doc_text = take (targetStart U d) (doc_text d)
             @ newTextChunk U (take (targetEnd U d - targetStart U d) (drop (targetStart U d) (doc_text d)))
             @ drop (targetEnd U d) (doc_text d),
           selectionStart = targetStart U d,
           selectionEnd = targetStart U d
             + length (newTextChunk U (take (targetEnd U d - targetStart U d) (drop (targetStart U d) (doc_text d))))\<rparr>)
   \<and> (selectionStart d < selectionEnd d \<longrightarrow>
        targetStart U d = selectionStart d \<and> targetEnd U d = selectionEnd d)
   \<and> (isLower U sel \<longrightarrow>
        newTextChunk U sel = toUpperCase U (take 1 sel) @ toLowerCase U (drop 1 sel))
   \<and> (\<not> isLower U sel \<and> isTitle U sel \<longrightarrow> newTextChunk U sel = toUpperCase U sel)
   \<and> (\<not> isLower U sel \<and> \<not> isTitle U sel \<longrightarrow> newTextChunk U sel = toLowerCase U sel)
   \<and> (\<not> isLower U sel \<and> isUpper U sel \<longrightarrow> newTextChunk U sel = toLowerCase U sel)
   \<and> toggleCase asciiTables \<lparr>doc_text = js ''cat'', selectionStart = 1, selectionEnd = 1\<rparr>
       = \<lparr>doc_text = js ''Cat'', selectionStart = 0, selectionEnd = 3\<rparr>
   \<and> toggleCase asciiTables \<lparr>doc_text = js ''cat'', selectionStart = 0, selectionEnd = 3\<rparr>
       = \<lparr>doc_text = js ''Cat'', selectionStart = 0, selectionEnd = 3\<rparr>
   \<and> toggleCase asciiTables \<lparr>doc_text = js ''Cat'', selectionStart = 0, selectionEnd = 3\<rparr>
       = \<lparr>doc_text = js ''CAT'', selectionStart = 0, selectionEnd = 3\<rparr>
   \<and> toggleCase asciiTables \<lparr>doc_text = js ''CAT'', selectionStart = 0, selectionEnd = 3\<rparr>
       = \<lparr>doc_text = js ''cat'', selectionStart = 0, selectionEnd = 3\<rparr>"
proof (intro conjI impI)
  assume a: "valid d \<and> targetStart U d < targetEnd U d"
  then have v: "valid d" and lt: "targetStart U d < targetEnd U d" by simp_all
  from target_range [OF v] show "targetStart U d \<le> selectionStart d"
    and "selectionEnd d \<le> targetEnd U d" and "targetEnd U d \<le> length (doc_text d)"
    by simp_all
  from toggleCase_eq [OF v lt]
  show "toggleCase U d =
          \<lparr>doc_text = take (targetStart U d) (doc_text d)
             @ newTextChunk U (take (targetEnd U d - targetStart U d) (drop (targetStart U d) (doc_text d)))
             @ drop (targetEnd U d) (doc_text d),
           selectionStart = targetStart U d,
           selectionEnd = targetStart U d
             + length (newTextChunk U (take (targetEnd U d - targetStart U d) (drop (targetStart U d) (doc_text d))))\<rparr>" .
next
  assume "selectionStart d < selectionEnd d"
  then show "targetStart U d = selectionStart d" and "targetEnd U d = selectionEnd d"
    by (simp_all add: targetStart_def targetEnd_def)
next
  assume "isLower U sel"
  then show "newTextChunk U sel = toUpperCase U (take 1 sel) @ toLowerCase U (drop 1 sel)"
    by (simp add: newTextChunk_def)
next
  assume "\<not> isLower U sel \<and> isTitle U sel"
  then show "newTextChunk U sel = toUpperCase U sel"
    by (simp add: newTextChunk_def)
next
  assume "\<not> isLower U sel \<and> \<not> isTitle U sel"
  then show "newTextChunk U sel = toLowerCase U sel"
    by (simp add: newTextChunk_def)
next
  assume "\<not> isLower U sel \<and> isUpper U sel"
  then show "newTextChunk U sel = toLowerCase U sel"
    by (simp add: newTextChunk_def isTitle_def Let_def)
next
  show "toggleCase asciiTables \<lparr>doc_text = js ''cat'', selectionStart = 1, selectionEnd = 1\<rparr>
       = \<lparr>doc_text = js ''Cat'', selectionStart = 0, selectionEnd = 3\<rparr>"
    by code_simp
next
  show "toggleCase asciiTables \<lparr>doc_text = js ''cat'', selectionStart = 0, selectionEnd = 3\<rparr>
       = \<lparr>doc_text = js ''Cat'', selectionStart = 0, selectionEnd = 3\<rparr>"
    by code_simp
next
  show "toggleCase asciiTables \<lparr>doc_text = js ''Cat'', selectionStart = 0, selectionEnd = 3\<rparr>
       = \<lparr>doc_text = js ''CAT'', selectionStart = 0, selectionEnd = 3\<rparr>"
    by code_simp
next
  show "toggleCase asciiTables \<lparr>doc_text = js ''CAT'', selectionStart = 0, selectionEnd = 3\<rparr>
       = \<lparr>doc_text = js ''cat'', selectionStart = 0, selectionEnd = 3\<rparr>"
    by code_simp
qed

theorem toggleCase_cycle_witness:
  "valid \<lparr>doc_text = js ''a cat.'', selectionStart = 3, selectionEnd = 3\<rparr>
   \<and> targetStart asciiTables \<lparr>doc_text = js ''a cat.'', selectionStart = 3, selectionEnd = 3\<rparr> = 2
   \<and> targetEnd asciiTables \<lparr>doc_text = js ''a cat.'', selectionStart = 3, selectionEnd = 3\<rparr> = 5
   \<and> isLower asciiTables (js ''cat'')
   \<and> toggleCase asciiTables \<lparr>doc_text = js ''a cat.'', selectionStart = 3, selectionEnd = 3\<rparr>
       = \<lparr>doc_text = js ''a Cat.'', selectionStart = 2, selectionEnd = 5\<rparr>
   \<and> targetStart asciiTables \<lparr>doc_text = js ''a cat.'', selectionStart = 2, selectionEnd = 4\<rparr> = 2
   \<and> targetEnd asciiTables \<lparr>doc_text = js ''a cat.'', selectionStart = 2, selectionEnd = 4\<rparr> = 4
   \<and> \<not> isLower asciiTables (js ''Cat'') \<and> isTitle asciiTables (js ''Cat'')
   \<and> newTextChunk asciiTables (js ''Cat'') = js ''CAT''
   \<and> \<not> isLower asciiTables (js ''cAt'') \<and> \<not> isTitle asciiTables (js ''cAt'')
   \<and> newTextChunk asciiTables (js ''cAt'') = js ''cat''
   \<and> \<not> isLower asciiTables (js ''CAT'') \<and> isUpper asciiTables (js ''CAT'')
   \<and> \<not> isTitle asciiTables (js ''CAT'')
   \<and> newTextChunk asciiTables (js ''CAT'') = js ''cat''"
proof -
  let ?U = asciiTables
  let ?d = "\<lparr>doc_text = js ''a cat.'', selectionStart = 3, selectionEnd = 3\<rparr>"
  let ?e = "\<lparr>doc_text = js ''a cat.'', selectionStart = 2, selectionEnd = 4\<rparr>"
  have v: "valid ?d" by (simp add: valid_def js_def)
  have a: "targetStart ?U ?d = 2" by code_simp
  have b: "targetEnd ?U ?d = 5" by code_simp
  have l: "isLower ?U (js ''cat'')" by code_simp
  have sel: "take (5 - 2) (drop 2 (js ''a cat.'')) = js ''cat''" by (simp add: js_def)
  have up: "toUpperCase ?U (take 1 (js ''cat'')) @ toLowerCase ?U (drop 1 (js ''cat'')) = js ''Cat''"
    by code_simp
  have t: "\<not> isLower ?U (js ''Cat'') \<and> isTitle ?U (js ''Cat'')" by code_simp
  have tu: "toUpperCase ?U (js ''Cat'') = js ''CAT''" by code_simp
  have m: "\<not> isLower ?U (js ''cAt'') \<and> \<not> isTitle ?U (js ''cAt'')" by code_simp
  have ml: "toLowerCase ?U (js ''cAt'') = js ''cat''" by code_simp
  have u: "\<not> isLower ?U (js ''CAT'') \<and> \<not> isTitle ?U (js ''CAT'')" by code_simp
  have iu: "isUpper ?U (js ''CAT'')" by code_simp
  have ul: "toLowerCase ?U (js ''CAT'') = js ''cat''" by code_simp
  have r1: "toggleCase ?U ?d = \<lparr>doc_text = js ''a Cat.'', selectionStart = 2, selectionEnd = 5\<rparr>"
    using toggleCase_cycle [of ?d ?U "js ''cat''"] v a b l sel up by (simp add: js_def)
  have r0: "targetStart ?U ?e = 2 \<and> targetEnd ?U ?e = 4"
    using toggleCase_cycle [of ?e ?U, THEN conjunct2, THEN conjunct1] by simp
  have r2: "newTextChunk ?U (js ''Cat'') = js ''CAT''"
    using toggleCase_cycle [of ?d ?U "js ''Cat''"] t tu by simp
  have r3: "newTextChunk ?U (js ''cAt'') = js ''cat''"
    using toggleCase_cycle [of ?d ?U "js ''cAt''"] m ml by simp
  have r4: "newTextChunk ?U (js ''CAT'') = js ''cat''"
    using toggleCase_cycle [of ?d ?U "js ''CAT''"] u iu ul by simp
  from v a b l r1 r0 t r2 m r3 u iu r4 show ?thesis by blast
qed

section \<open>The document stays valid\<close>

lemma valid_setSelection: "valid (setSelection t a b)"
  by (auto simp: valid_def setSelection_def Let_def min_def max_def)

lemma valid_insertTextAtCursor: "valid (insertTextAtCursor d s)"
  by (simp add: insertTextAtCursor_def Let_def valid_setSelection)

lemma valid_deleteAtCursor: "valid d \<Longrightarrow> valid (deleteAtCursor d mode)"
  by (simp add: deleteAtCursor_def Let_def valid_setSelection)

lemma valid_toggleCase: "valid d \<Longrightarrow> valid (toggleCase U d)"
  by (simp add: toggleCase_def Let_def valid_setSelection)

lemma valid_onresult: "valid d \<Longrightarrow> valid (onresult P lang d ev)"
  by (simp add: onresult_def Let_def valid_insertTextAtCursor split: option.splits)

lemma handleStopAudio_doc: "doc (handleStopAudio s) = doc s"
  by (simp add: handleStopAudio_def split: option.splits)

lemma step_valid:
  assumes "valid (doc s)" "step U P s e = Some s'"
  shows "valid (doc s')"
proof (cases e)
  case (Toggle f)
  with assms(2) have s': "s' = toggleListening f s" by (simp add: step_def)
  show ?thesis using assms(1) unfolding s'
    by (simp add: toggleListening_def Let_def handleStopAudio_doc)
next
  case (EngineResult ev)
  with assms(2) have s': "s' = s\<lparr>doc := onresult P (language s) (doc s) ev\<rparr>"
    by (simp add: step_def)
  show ?thesis using assms(1) unfolding s' by (simp add: valid_onresult)
next
  case (EngineError err)
  with assms(2) have s': "s' = onerror err s" by (simp add: step_def)
  show ?thesis using assms(1) unfolding s' by (simp add: onerror_def)
next
  case (EngineEnd f)
  with assms(2) have s': "s' = onend f s" by (simp add: step_def)
  show ?thesis using assms(1) unfolding s' by (simp add: onend_def Let_def)
next
  case (KeyPress key type)
  with assms(2) have s': "s' = handleKeyboardPress U key type s" by (simp add: step_def)
  show ?thesis using assms(1) unfolding s'
    by (simp add: handleKeyboardPress_def Let_def handleStopAudio_doc
        valid_insertTextAtCursor valid_deleteAtCursor valid_toggleCase)
next
  case (Change d)
  with assms(2) have s': "s' = onChange d s" and v: "valid d"
    by (simp_all add: step_def split: if_splits)
  show ?thesis using v unfolding s'
    by (simp add: onChange_def Let_def handleStopAudio_doc)
next
  case Clear
  with assms(2) have s': "s' = handleClear s" by (simp add: step_def)
  show ?thesis unfolding s'
    by (simp add: handleClear_def Let_def handleStopAudio_doc valid_def)
next
  case Play
  with assms(2) have s': "s' = handlePlay s" by (simp add: step_def)
  show ?thesis using assms(1) unfolding s'
    by (simp add: handlePlay_def toggleListening_def Let_def)
next
  case StopAudio
  with assms(2) have s': "s' = handleStopAudio s" by (simp add: step_def)
  show ?thesis using assms(1) unfolding s' by (simp add: handleStopAudio_doc)
next
  case (SpeakResolved u)
  with assms(2) have s': "s' = speakResolved u s" by (simp add: step_def split: if_splits)
  show ?thesis using assms(1) unfolding s' by (simp add: speakResolved_def)
next
  case (Progress u pct)
  with assms(2) have s': "s' = onProgress u pct s" by (simp add: step_def split: if_splits)
  show ?thesis unfolding s' by (simp add: onProgress_def Let_def valid_setSelection)
next
  case (Complete u)
  with assms(2) have s': "s' = onComplete u s" by (simp add: step_def split: if_splits)
  show ?thesis using assms(1) unfolding s' by (simp add: onComplete_def)
qed

lemma run_valid:
  "valid (doc s) \<Longrightarrow> run U P s evs = Some s' \<Longrightarrow> valid (doc s')"
proof (induction evs arbitrary: s)
  case Nil
  then show ?case by simp
next
  case (Cons e evs)
  from Cons.prems(2) obtain s1 where s1: "step U P s e = Some s1" and r: "run U P s1 evs = Some s'"
    by (auto split: option.splits)
  from Cons.IH [OF step_valid [OF Cons.prems(1) s1] r] show ?case .
qed

lemma reachable_valid:
  "run U P (initApp supported) evs = Some s \<Longrightarrow> valid (doc s)"
  using run_valid [of "initApp supported" U P evs s]
  by (simp add: initApp_def valid_def)

section \<open>Listening and playback together\<close>

text \<open>
  What the handlers do for the exclusion: playing stops listening, starting to listen
  and every key press or edit set the audio state to idle.
\<close>

lemma exclusion_policy:
  "trim (doc_text (doc s)) \<noteq> [] \<Longrightarrow> hasRecognition s \<Longrightarrow> \<not> shouldListen (handlePlay s)"
  "trim (doc_text (doc s)) \<noteq> [] \<Longrightarrow> hasRecognition s \<Longrightarrow> listenInv s \<Longrightarrow> \<not> isListening (handlePlay s)"
  "hasRecognition s \<Longrightarrow> \<not> shouldListen s \<Longrightarrow> audioState (toggleListening startThrows s) = Idle"
  "audioState (handleKeyboardPress U key type s) = Idle"
  "audioState (onChange d s) = Idle"
proof -
  show "trim (doc_text (doc s)) \<noteq> [] \<Longrightarrow> hasRecognition s \<Longrightarrow> \<not> shouldListen (handlePlay s)"
    by (simp add: handlePlay_def toggleListening_def Let_def)
  show "trim (doc_text (doc s)) \<noteq> [] \<Longrightarrow> hasRecognition s \<Longrightarrow> listenInv s \<Longrightarrow> \<not> isListening (handlePlay s)"
    by (simp add: handlePlay_def toggleListening_def Let_def listenInv_def)
  show "hasRecognition s \<Longrightarrow> \<not> shouldListen s \<Longrightarrow> audioState (toggleListening startThrows s) = Idle"
    by (cases "audioState s = Idle") (simp_all add: toggleListening_def Let_def handleStopAudio_fields)
  show "audioState (handleKeyboardPress U key type s) = Idle"
    by (cases "audioState s = Idle") (simp_all add: handleKeyboardPress_def Let_def handleStopAudio_fields)
  show "audioState (onChange d s) = Idle"
    by (cases "audioState s = Idle") (simp_all add: onChange_def Let_def handleStopAudio_fields)
qed

text \<open>
  C9 (the code departs from it): the spec requires that the session is never Active
  while the audio state is Playing. \<open>handlePlay\<close> stores the stop function only once
  \<open>speakText\<close> has resolved. When the user types "a", presses play and then toggles
  listening before that, \<open>handleStopAudio\<close> finds no stop function: it sets the audio
  state to idle and the utterance goes on. Listening starts, the utterance reports its
  progress, and the state is Active and Playing at once.
\<close>

theorem listening_while_playing:
  "run asciiTables (normalize_chunk asciiTables) (initApp True)
     [KeyPress (js ''a'') K_CHAR, Play, Toggle False]
    = Some \<lparr>doc = \<lparr>doc_text = js ''a'', selectionStart = 1, selectionEnd = 1\<rparr>,
            language = ES, isListening = True, audioState = Idle, shouldListen = True,
            stopAudio = None, hasRecognition = True, startCalls = 1, stopCalls = 0,
            utterances = [\<lparr>textLength = 1, resolved = False, finished = False\<rparr>]\<rparr>
   \<and> run asciiTables (normalize_chunk asciiTables) (initApp True)
     [KeyPress (js ''a'') K_CHAR, Play, Toggle False, SpeakResolved 0, Progress 0 (1 / 2)]
    = Some \<lparr>doc = \<lparr>doc_text = js ''a'', selectionStart = 0, selectionEnd = 0\<rparr>,
            language = ES, isListening = True, audioState = Playing, shouldListen = True,
            stopAudio = Some 0, hasRecognition = True, startCalls = 1, stopCalls = 0,
            utterances = [\<lparr>textLength = 1, resolved = True, finished = False\<rparr>]\<rparr>"
  by (simp add: step_def initApp_def handleKeyboardPress_def handlePlay_def toggleListening_def
      handleStopAudio_def speakResolved_def onProgress_def mapProgress_def
      insertTextAtCursor_def substring_def substringFrom_def setSelection_def Let_def js_def
      trim_def trimStart_def trimEnd_def isWhitespace_def)

end
